theory Spec2Isabelle
  imports Main
begin

section \<open>Synchronization utilities of \<^verbatim>\<open>mpi4py.util.sync\<close>\<close>

text \<open>
  The module builds a sequential section, a counter, a mutex, a recursive mutex and a
  condition variable on one-sided communication. Each primitive is embedded twice where a
  claim needs it: as a function of one caller on the window (a call that never returns is
  \<open>None\<close>), and, for the claims about several ranks at once, as a transition system whose
  steps are the single RMA operations of the source.
\<close>

subsection \<open>Errors and outcomes\<close>

text \<open>
  Every error of the module is a \<^verbatim>\<open>RuntimeError\<close> with a message; \<^verbatim>\<open>array.array\<close> raises
  \<^verbatim>\<open>OverflowError\<close> for a value outside the element type. The specification names the
  kinds of the runtime errors, which are recognised by their messages.
\<close>

datatype error = RuntimeError string | OverflowError

definition AlreadyFreed :: "error \<Rightarrow> bool" where
  "AlreadyFreed e =
     (e = RuntimeError ''counter already freed'' \<or>
      e = RuntimeError ''mutex already freed'' \<or>
      e = RuntimeError ''condition already freed'')"

definition AlreadyHeld :: "error \<Rightarrow> bool" where
  "AlreadyHeld e = (e = RuntimeError ''cannot acquire already held mutex'')"

definition NotHeld :: "error \<Rightarrow> bool" where
  "NotHeld e =
     (e = RuntimeError ''cannot release unheld mutex'' \<or>
      e = RuntimeError ''cannot wait on unheld mutex'' \<or>
      e = RuntimeError ''cannot notify on unheld mutex'')"

text \<open>
  A call either does not return (\<open>None\<close>), or ends with an exception or a value, and in both
  cases leaves the object in a state.
\<close>

type_synonym ('a, 's) outcome = "((error + 'a) \<times> 's) option"

definition raise :: "error \<Rightarrow> 's \<Rightarrow> ('a, 's) outcome" where
  "raise e s = Some (Inl e, s)"

definition return :: "'a \<Rightarrow> 's \<Rightarrow> ('a, 's) outcome" where
  "return v s = Some (Inr v, s)"

subsection \<open>RMA windows\<close>

text \<open>
  A window is addressed by target rank and displacement. Ranks and slot values are the
  C ints of \<^verbatim>\<open>array.array('i', ...)\<close>; none of the operations on the mutex and condition
  windows does arithmetic on them.
\<close>

type_synonym memory = "int \<times> nat \<Rightarrow> int"

record win =
  group_rank :: int
  group_size :: int
  memory :: memory

datatype op = MPI_REPLACE | MPI_SUM | MPI_NO_OP

fun reduce :: "op \<Rightarrow> int \<Rightarrow> int \<Rightarrow> int" where
  "reduce MPI_REPLACE old v = v"
| "reduce MPI_SUM old v = old + v"
| "reduce MPI_NO_OP old v = old"

text \<open>
  Modelled from the spec: the runtime's atomic operations \<^verbatim>\<open>Fetch_and_op\<close>, \<^verbatim>\<open>Accumulate\<close>
  and \<^verbatim>\<open>Compare_and_swap\<close>, which are not part of the module. Fetch-and-op is an atomic
  read-modify-write returning the prior value, accumulate is the same update without the
  fetch, compare-and-swap is an atomic conditional write returning the prior value, and
  \<^verbatim>\<open>MPI.NO_OP\<close> reads without modifying. The operations are assumed reliable and take effect,
  one at a time, in the order the caller issues them; \<^verbatim>\<open>Lock_all\<close>, \<^verbatim>\<open>Unlock_all\<close>,
  \<^verbatim>\<open>Flush\<close> and \<^verbatim>\<open>Sync\<close> have no effect on the contents of the window.
\<close>

definition Fetch_and_op :: "int \<Rightarrow> int \<Rightarrow> nat \<Rightarrow> op \<Rightarrow> memory \<Rightarrow> int \<times> memory" where
  "Fetch_and_op origin target disp oper m =
     (m (target, disp), m((target, disp) := reduce oper (m (target, disp)) origin))"

definition Accumulate :: "int \<Rightarrow> int \<Rightarrow> nat \<Rightarrow> op \<Rightarrow> memory \<Rightarrow> memory" where
  "Accumulate origin target disp oper m = snd (Fetch_and_op origin target disp oper m)"

definition Compare_and_swap :: "int \<Rightarrow> int \<Rightarrow> int \<Rightarrow> nat \<Rightarrow> memory \<Rightarrow> int \<times> memory" where
  "Compare_and_swap origin compare target disp m =
     (m (target, disp),
      if m (target, disp) = compare then m((target, disp) := origin) else m)"

text \<open>
  Modelled from the spec: \<^verbatim>\<open>MPI.PROC_NULL\<close>, the sentinel rank that is distinct from any
  valid rank. Its value is the runtime's; the proofs use only that it is negative.
\<close>

definition PROC_NULL :: int where
  "PROC_NULL = - 1"

definition tail_rank :: int where
  "tail_rank = 0"

definition lock_id :: nat where
  "lock_id = 0"

definition flag_id :: nat where
  "flag_id = 0"

definition next_id :: nat where
  "next_id = 1"

definition tail_id :: nat where
  "tail_id = 2"

text \<open>
  \<^verbatim>\<open>_spinloop\<close>: the loop reads the caller's own segment until the slot differs from the
  sentinel. Backoff, \<^verbatim>\<open>Flush\<close> and \<^verbatim>\<open>Sync\<close> do not write the window, so for a caller that
  runs alone the loop either leaves at once or never.
\<close>

partial_function (option) spinloop :: "int \<Rightarrow> nat \<Rightarrow> int \<Rightarrow> memory \<Rightarrow> int option" where
  "spinloop self_rank index sentinel m =
     (if m (self_rank, index) = sentinel then spinloop self_rank index sentinel m
      else Some (m (self_rank, index)))"

subsection \<open>Counter\<close>

text \<open>
  The counter window holds one element of the type chosen by \<^verbatim>\<open>typecode\<close>, at \<^verbatim>\<open>(root, 0)\<close>.
  The element type is a parameter: signed or unsigned, with its number of bits.
  \<^verbatim>\<open>array.array(typechar, [v])\<close> raises \<^verbatim>\<open>OverflowError\<close> for a value outside the type.
\<close>

datatype ctype = Signed nat | Unsigned nat

fun in_range :: "ctype \<Rightarrow> int \<Rightarrow> bool" where
  "in_range (Signed w) v = (- (2 ^ (w - 1)) \<le> v \<and> v < 2 ^ (w - 1))"
| "in_range (Unsigned w) v = (0 \<le> v \<and> v < 2 ^ w)"

fun wrap :: "ctype \<Rightarrow> int \<Rightarrow> int" where
  "wrap (Signed w) v = signed_take_bit (w - 1) v"
| "wrap (Unsigned w) v = take_bit w v"

text \<open>
  Modelled from the spec: \<^verbatim>\<open>Fetch_and_op\<close> on a window whose elements have the configured
  integer type. The slot is a machine integer of that type, so the sum stored by
  \<^verbatim>\<open>MPI.SUM\<close> is the sum reduced into the type (two's complement).
\<close>

definition Fetch_and_op_typed ::
  "ctype \<Rightarrow> int \<Rightarrow> int \<Rightarrow> nat \<Rightarrow> op \<Rightarrow> memory \<Rightarrow> int \<times> memory" where
  "Fetch_and_op_typed t origin target disp oper m =
     (m (target, disp), m((target, disp) := wrap t (reduce oper (m (target, disp)) origin)))"

record Counter =
  c_start :: int
  c_step :: int
  c_window :: bool
  c_typechar :: ctype
  c_location :: "int \<times> nat"

text \<open>
  \<^verbatim>\<open>Counter.__init__\<close> on the rank \<open>rank\<close>; only the root builds an array holding \<open>start\<close>.
  \<open>c_window\<close> tells whether the handle is a window or \<^verbatim>\<open>MPI.WIN_NULL\<close>; the contents of
  the window are shared by all ranks and passed separately. \<open>Counter_object\<close> is the
  object that the constructor fills in, \<open>Counter_memory\<close> the window after the barrier.
\<close>

definition Counter_object :: "int \<Rightarrow> int \<Rightarrow> ctype \<Rightarrow> int \<Rightarrow> Counter" where
  "Counter_object start step typecode root =
     \<lparr>c_start = start, c_step = step, c_window = True,
      c_typechar = typecode, c_location = (root, 0)\<rparr>"

definition Counter_init :: "int \<Rightarrow> int \<Rightarrow> ctype \<Rightarrow> int \<Rightarrow> int \<Rightarrow> error + Counter" where
  "Counter_init start step typecode root rank =
     (if rank = root \<and> \<not> in_range typecode start then Inl OverflowError
      else Inr (Counter_object start step typecode root))"

definition Counter_memory :: "int \<Rightarrow> int \<Rightarrow> memory" where
  "Counter_memory start root = (\<lambda>a. 0)((root, 0) := start)"

definition Counter_next :: "int option \<Rightarrow> Counter \<Rightarrow> memory \<Rightarrow> (error + int) \<times> memory" where
  "Counter_next incr self m =
     (if \<not> c_window self then (Inl (RuntimeError ''counter already freed''), m)
      else
        let (rank, disp) = c_location self;
            incr1 = (case incr of None \<Rightarrow> c_step self | Some i \<Rightarrow> i)
        in if \<not> in_range (c_typechar self) incr1 then (Inl OverflowError, m)
           else
             let (prev, m') = Fetch_and_op_typed (c_typechar self) incr1 rank disp MPI_SUM m
             in (Inr prev, m'))"

definition Counter_free :: "Counter \<Rightarrow> Counter" where
  "Counter_free self = self\<lparr>c_window := False\<rparr>"

text \<open>
  Calls \<^verbatim>\<open>next()\<close> with the default increment, in the order in which the runtime performs
  their fetch-and-op operations; each call is made through the handle of its rank.
\<close>

fun Counter_nexts :: "Counter list \<Rightarrow> memory \<Rightarrow> (error + int) list \<times> memory" where
  "Counter_nexts [] m = ([], m)"
| "Counter_nexts (c # cs) m =
     (let (res, m') = Counter_next None c m;
          (ress, m'') = Counter_nexts cs m'
      in (res # ress, m''))"

subsection \<open>Mutex\<close>

record Mutex =
  m_window :: "win option"

text \<open>
  \<^verbatim>\<open>Mutex.__init__\<close> on the rank \<open>r\<close> of a communicator of \<open>n\<close> ranks, after the barrier:
  every rank has stored \<^verbatim>\<open>[False, null_rank, null_rank][:count]\<close> in its segment.
\<close>

definition Mutex_memory :: memory where
  "Mutex_memory = (\<lambda>(r, d). if d = lock_id then 0 else PROC_NULL)"

definition Mutex_init :: "int \<Rightarrow> int \<Rightarrow> Mutex" where
  "Mutex_init n r =
     \<lparr>m_window = Some \<lparr>group_rank = r, group_size = n, memory = Mutex_memory\<rparr>\<rparr>"

definition Mutex_locked :: "Mutex \<Rightarrow> error + bool" where
  "Mutex_locked self =
     (case m_window self of
        None \<Rightarrow> Inl (RuntimeError ''mutex already freed'')
      | Some window \<Rightarrow> Inr (memory window (group_rank window, lock_id) \<noteq> 0))"

definition Mutex_acquire :: "bool \<Rightarrow> Mutex \<Rightarrow> (bool, Mutex) outcome" where
  "Mutex_acquire blocking self =
     (case m_window self of
        None \<Rightarrow> raise (RuntimeError ''mutex already freed'') self
      | Some window \<Rightarrow>
          if memory window (group_rank window, lock_id) \<noteq> 0
          then raise (RuntimeError ''cannot acquire already held mutex'') self
          else
            let self_rank = group_rank window;
                m1 = Accumulate PROC_NULL self_rank next_id MPI_REPLACE (memory window);
                (prev, m2) =
                   (if blocking then Fetch_and_op self_rank tail_rank tail_id MPI_REPLACE m1
                    else Compare_and_swap self_rank PROC_NULL tail_rank tail_id m1);
                locked = (prev = PROC_NULL)
            in if blocking \<and> \<not> locked then
                 let m3 = Accumulate self_rank prev next_id MPI_REPLACE m2
                 in (case spinloop self_rank lock_id 0 m3 of
                       None \<Rightarrow> None
                     | Some v \<Rightarrow>
                         let locked = (v \<noteq> 0);
                             m4 = Accumulate (of_bool locked) self_rank lock_id MPI_REPLACE m3
                         in return locked (self\<lparr>m_window := Some (window\<lparr>memory := m4\<rparr>)\<rparr>))
               else
                 let m4 = Accumulate (of_bool locked) self_rank lock_id MPI_REPLACE m2
                 in return locked (self\<lparr>m_window := Some (window\<lparr>memory := m4\<rparr>)\<rparr>))"

definition Mutex_release :: "Mutex \<Rightarrow> (unit, Mutex) outcome" where
  "Mutex_release self =
     (case m_window self of
        None \<Rightarrow> raise (RuntimeError ''mutex already freed'') self
      | Some window \<Rightarrow>
          if memory window (group_rank window, lock_id) = 0
          then raise (RuntimeError ''cannot release unheld mutex'') self
          else
            let self_rank = group_rank window;
                (prev, m1) = Compare_and_swap PROC_NULL self_rank tail_rank tail_id (memory window)
            in if prev \<noteq> self_rank then
                 (case spinloop self_rank next_id PROC_NULL m1 of
                    None \<Rightarrow> None
                  | Some next_rank \<Rightarrow>
                      let m2 = Accumulate 1 next_rank lock_id MPI_REPLACE m1;
                          m3 = Accumulate 0 self_rank lock_id MPI_REPLACE m2
                      in return () (self\<lparr>m_window := Some (window\<lparr>memory := m3\<rparr>)\<rparr>))
               else
                 let m3 = Accumulate 0 self_rank lock_id MPI_REPLACE m1
                 in return () (self\<lparr>m_window := Some (window\<lparr>memory := m3\<rparr>)\<rparr>))"

text \<open>
  \<^verbatim>\<open>Mutex.free\<close> releases a held mutex and replaces the window by \<^verbatim>\<open>MPI.WIN_NULL\<close>; an
  exception of the release would leave the window in place.
\<close>

definition Mutex_free :: "Mutex \<Rightarrow> (unit, Mutex) outcome" where
  "Mutex_free self =
     (case m_window self of
        None \<Rightarrow> return () (self\<lparr>m_window := None\<rparr>)
      | Some window \<Rightarrow>
          if memory window (group_rank window, lock_id) \<noteq> 0 then
            (case Mutex_release self of
               None \<Rightarrow> None
             | Some (Inl e, self') \<Rightarrow> Some (Inl e, self')
             | Some (Inr u, self') \<Rightarrow> return () (self'\<lparr>m_window := None\<rparr>))
          else return () (self\<lparr>m_window := None\<rparr>))"

subsection \<open>RMutex\<close>

record RMutex =
  rm_block :: Mutex
  rm_count :: int

definition RMutex_init :: "int \<Rightarrow> int \<Rightarrow> RMutex" where
  "RMutex_init n r = \<lparr>rm_block = Mutex_init n r, rm_count = 0\<rparr>"

definition RMutex_acquire :: "bool \<Rightarrow> RMutex \<Rightarrow> (bool, RMutex) outcome" where
  "RMutex_acquire blocking self =
     (case Mutex_locked (rm_block self) of
        Inl e \<Rightarrow> raise e self
      | Inr True \<Rightarrow> return True (self\<lparr>rm_count := rm_count self + 1\<rparr>)
      | Inr False \<Rightarrow>
          (case Mutex_acquire blocking (rm_block self) of
             None \<Rightarrow> None
           | Some (Inl e, b) \<Rightarrow> raise e (self\<lparr>rm_block := b\<rparr>)
           | Some (Inr locked, b) \<Rightarrow>
               if locked then return locked (self\<lparr>rm_block := b, rm_count := 1\<rparr>)
               else return locked (self\<lparr>rm_block := b\<rparr>)))"

definition RMutex_release :: "RMutex \<Rightarrow> (unit, RMutex) outcome" where
  "RMutex_release self =
     (case Mutex_locked (rm_block self) of
        Inl e \<Rightarrow> raise e self
      | Inr False \<Rightarrow> raise (RuntimeError ''cannot release unheld mutex'') self
      | Inr True \<Rightarrow>
          let count = rm_count self - 1;
              self1 = self\<lparr>rm_count := count\<rparr>
          in if count = 0 then
               (case Mutex_release (rm_block self1) of
                  None \<Rightarrow> None
                | Some (Inl e, b) \<Rightarrow> raise e (self1\<lparr>rm_block := b\<rparr>)
                | Some (Inr u, b) \<Rightarrow> return () (self1\<lparr>rm_block := b\<rparr>))
             else return () self1)"

definition RMutex_locked :: "RMutex \<Rightarrow> error + bool" where
  "RMutex_locked self = Mutex_locked (rm_block self)"

definition RMutex_count :: "RMutex \<Rightarrow> int" where
  "RMutex_count self = rm_count self"

definition RMutex_free :: "RMutex \<Rightarrow> (unit, RMutex) outcome" where
  "RMutex_free self =
     (case Mutex_free (rm_block self) of
        None \<Rightarrow> None
      | Some (Inl e, b) \<Rightarrow> raise e (self\<lparr>rm_block := b\<rparr>)
      | Some (Inr u, b) \<Rightarrow> return () (self\<lparr>rm_block := b, rm_count := 0\<rparr>))"

text \<open>
  The branches of \<^verbatim>\<open>Condition._release_save\<close> and \<^verbatim>\<open>Condition._acquire_restore\<close> for a
  lock that is an \<^verbatim>\<open>RMutex\<close>: the count is saved and zeroed before the underlying mutex is
  released, and written back after it has been acquired again.
\<close>

definition release_save_RMutex :: "RMutex \<Rightarrow> (int, RMutex) outcome" where
  "release_save_RMutex lck =
     (let state = rm_count lck;
          lck1 = lck\<lparr>rm_count := 0\<rparr>
      in case Mutex_release (rm_block lck1) of
           None \<Rightarrow> None
         | Some (Inl e, b) \<Rightarrow> raise e (lck1\<lparr>rm_block := b\<rparr>)
         | Some (Inr u, b) \<Rightarrow> return state (lck1\<lparr>rm_block := b\<rparr>))"

definition acquire_restore_RMutex :: "int \<Rightarrow> RMutex \<Rightarrow> (unit, RMutex) outcome" where
  "acquire_restore_RMutex state lck =
     (case Mutex_acquire True (rm_block lck) of
        None \<Rightarrow> None
      | Some (Inl e, b) \<Rightarrow> raise e (lck\<lparr>rm_block := b\<rparr>)
      | Some (Inr locked, b) \<Rightarrow> return () (lck\<lparr>rm_block := b, rm_count := state\<rparr>))"

text \<open>
  Sequences of calls on one recursive mutex. \<^verbatim>\<open>_acquire_restore\<close> is only ever called by
  \<^verbatim>\<open>Condition.wait\<close>, with the state that the \<^verbatim>\<open>_release_save\<close> before it returned, so
  the run keeps that state as \<^verbatim>\<open>wait\<close> does in its local variable; an exception leaves
  the object as it is at the \<^verbatim>\<open>raise\<close>, and the caller goes on with the next call.
\<close>

datatype rmutex_op =
  Call_acquire bool | Call_release | Call_free | Call_release_save | Call_acquire_restore

fun rmutex_call :: "rmutex_op \<Rightarrow> RMutex \<times> int option \<Rightarrow> (RMutex \<times> int option) option" where
  "rmutex_call (Call_acquire blocking) (lck, saved) =
     (case RMutex_acquire blocking lck of None \<Rightarrow> None | Some (res, lck') \<Rightarrow> Some (lck', saved))"
| "rmutex_call Call_release (lck, saved) =
     (case RMutex_release lck of None \<Rightarrow> None | Some (res, lck') \<Rightarrow> Some (lck', saved))"
| "rmutex_call Call_free (lck, saved) =
     (case RMutex_free lck of None \<Rightarrow> None | Some (res, lck') \<Rightarrow> Some (lck', saved))"
| "rmutex_call Call_release_save (lck, saved) =
     (case release_save_RMutex lck of
        None \<Rightarrow> None
      | Some (Inl e, lck') \<Rightarrow> Some (lck', saved)
      | Some (Inr state, lck') \<Rightarrow> Some (lck', Some state))"
| "rmutex_call Call_acquire_restore (lck, saved) =
     (case saved of
        None \<Rightarrow> Some (lck, saved)
      | Some state \<Rightarrow>
          (case acquire_restore_RMutex state lck of
             None \<Rightarrow> None
           | Some (res, lck') \<Rightarrow> Some (lck', None)))"

fun rmutex_calls :: "rmutex_op list \<Rightarrow> RMutex \<times> int option \<Rightarrow> (RMutex \<times> int option) option" where
  "rmutex_calls [] s = Some s"
| "rmutex_calls (c # cs) s =
     (case rmutex_call c s of None \<Rightarrow> None | Some s' \<Rightarrow> rmutex_calls cs s')"

definition RMutex_held :: "RMutex \<Rightarrow> bool" where
  "RMutex_held self = (RMutex_locked self = Inr True)"

definition RMutex_inv :: "RMutex \<Rightarrow> bool" where
  "RMutex_inv self = ((0 < RMutex_count self \<longleftrightarrow> RMutex_held self) \<and> 0 \<le> RMutex_count self)"

subsection \<open>Condition\<close>

text \<open>
  The lock of a condition is a \<^verbatim>\<open>Mutex\<close> or an \<^verbatim>\<open>RMutex\<close>; \<open>cv_lock_owned\<close> tells whether
  the condition created it, in which case \<^verbatim>\<open>_lock_free\<close> is the \<^verbatim>\<open>free\<close> of the lock, and
  does nothing otherwise.
\<close>

datatype lock = Plain Mutex | Recursive RMutex

record Condition =
  cv_lock :: lock
  cv_lock_owned :: bool
  cv_window :: "win option"

definition Condition_memory :: memory where
  "Condition_memory = (\<lambda>(r, d). if d = flag_id then 0 else PROC_NULL)"

definition Condition_init :: "int \<Rightarrow> int \<Rightarrow> lock option \<Rightarrow> Condition" where
  "Condition_init n r lck =
     \<lparr>cv_lock = (case lck of None \<Rightarrow> Recursive (RMutex_init n r) | Some l \<Rightarrow> l),
      cv_lock_owned = (lck = None),
      cv_window = Some \<lparr>group_rank = r, group_size = n, memory = Condition_memory\<rparr>\<rparr>"

definition with_state :: "('s \<Rightarrow> 't) \<Rightarrow> ('a, 's) outcome \<Rightarrow> ('a, 't) outcome" where
  "with_state f out = map_option (\<lambda>(res, s). (res, f s)) out"

definition lock_acquire :: "bool \<Rightarrow> lock \<Rightarrow> (bool, lock) outcome" where
  "lock_acquire blocking lck =
     (case lck of
        Plain l \<Rightarrow> with_state Plain (Mutex_acquire blocking l)
      | Recursive l \<Rightarrow> with_state Recursive (RMutex_acquire blocking l))"

definition lock_release :: "lock \<Rightarrow> (unit, lock) outcome" where
  "lock_release lck =
     (case lck of
        Plain l \<Rightarrow> with_state Plain (Mutex_release l)
      | Recursive l \<Rightarrow> with_state Recursive (RMutex_release l))"

definition lock_locked :: "lock \<Rightarrow> error + bool" where
  "lock_locked lck = (case lck of Plain l \<Rightarrow> Mutex_locked l | Recursive l \<Rightarrow> RMutex_locked l)"

definition lock_free :: "lock \<Rightarrow> (unit, lock) outcome" where
  "lock_free lck =
     (case lck of
        Plain l \<Rightarrow> with_state Plain (Mutex_free l)
      | Recursive l \<Rightarrow> with_state Recursive (RMutex_free l))"

definition enqueue :: "int \<Rightarrow> memory \<Rightarrow> memory" where
  "enqueue process m =
     (let (prev, m1) = Fetch_and_op process tail_rank tail_id MPI_REPLACE m;
          (nxt, m2) =
             (if prev \<noteq> PROC_NULL then Fetch_and_op process prev next_id MPI_REPLACE m1
              else (process, m1))
      in Accumulate nxt process next_id MPI_REPLACE m2)"

text \<open>
  The loop of \<^verbatim>\<open>_dequeue\<close>, on the variables \<^verbatim>\<open>processes\<close>, \<^verbatim>\<open>next\<close> and \<^verbatim>\<open>empty\<close>
  (here \<open>nxt\<close> and \<open>drained\<close>); \<^verbatim>\<open>processes[0]\<close> is read after the append, so the list is
  not empty there.
\<close>

function dequeue_loop ::
  "int \<Rightarrow> int list \<Rightarrow> int \<Rightarrow> bool \<Rightarrow> memory \<Rightarrow> int list \<times> int \<times> bool \<times> memory" where
  "dequeue_loop maxnumprocs processes nxt drained m =
     (if int (length processes) < maxnumprocs \<and> \<not> drained then
        dequeue_loop maxnumprocs (processes @ [nxt])
          (fst (Fetch_and_op PROC_NULL nxt next_id MPI_NO_OP m))
          (hd (processes @ [nxt]) = fst (Fetch_and_op PROC_NULL nxt next_id MPI_NO_OP m))
          (snd (Fetch_and_op PROC_NULL nxt next_id MPI_NO_OP m))
      else (processes, nxt, drained, m))"
  by pat_completeness auto
termination
  by (relation "measure (\<lambda>(maxnumprocs, processes, nxt, drained, m).
        nat (maxnumprocs - int (length processes)))") auto

declare dequeue_loop.simps [simp del]

definition dequeue :: "int \<Rightarrow> win \<Rightarrow> int list \<times> win" where
  "dequeue maxnumprocs0 window =
     (let maxnumprocs = max 0 (min maxnumprocs0 (group_size window));
          (prev, m1) = Fetch_and_op PROC_NULL tail_rank tail_id MPI_NO_OP (memory window)
      in if prev \<noteq> PROC_NULL then
           let (nxt, m2) = Fetch_and_op PROC_NULL prev next_id MPI_NO_OP m1;
               (processes, nxt1, drained, m3) = dequeue_loop maxnumprocs [] nxt False m2;
               m4 = (if \<not> drained then Accumulate nxt1 prev next_id MPI_REPLACE m3
                     else Accumulate PROC_NULL tail_rank tail_id MPI_REPLACE m3)
           in (processes, window\<lparr>memory := m4\<rparr>)
         else ([], window\<lparr>memory := m1\<rparr>))"

text \<open>
  \<^verbatim>\<open>_sleep\<close> spins on the caller's FLAG slot and then stores zero into it.
\<close>

definition sleep :: "win \<Rightarrow> win option" where
  "sleep window =
     (case spinloop (group_rank window) flag_id 0 (memory window) of
        None \<Rightarrow> None
      | Some v \<Rightarrow> Some (window\<lparr>memory := (memory window)((group_rank window, flag_id) := 0)\<rparr>))"

definition wakeup :: "int list \<Rightarrow> win \<Rightarrow> win" where
  "wakeup processes window =
     window\<lparr>memory := foldl (\<lambda>m rank. Accumulate 1 rank flag_id MPI_REPLACE m)
                         (memory window) processes\<rparr>"

text \<open>
  \<^verbatim>\<open>_release_save\<close> and \<^verbatim>\<open>_acquire_restore\<close>. The state is the saved count for a recursive
  lock and \<^verbatim>\<open>None\<close> for a plain one; the kind of the lock does not change between the two
  calls in \<^verbatim>\<open>wait\<close>, so a recursive lock is never restored from \<^verbatim>\<open>None\<close> (the count, which
  the record keeps as an integer, is left as it is in that case).
\<close>

definition release_save :: "Condition \<Rightarrow> (int option, Condition) outcome" where
  "release_save self =
     (case cv_lock self of
        Recursive l \<Rightarrow>
          (case release_save_RMutex l of
             None \<Rightarrow> None
           | Some (Inl e, l') \<Rightarrow> raise e (self\<lparr>cv_lock := Recursive l'\<rparr>)
           | Some (Inr state, l') \<Rightarrow> return (Some state) (self\<lparr>cv_lock := Recursive l'\<rparr>))
      | Plain l \<Rightarrow>
          (case Mutex_release l of
             None \<Rightarrow> None
           | Some (Inl e, l') \<Rightarrow> raise e (self\<lparr>cv_lock := Plain l'\<rparr>)
           | Some (Inr u, l') \<Rightarrow> return None (self\<lparr>cv_lock := Plain l'\<rparr>)))"

definition acquire_restore :: "int option \<Rightarrow> Condition \<Rightarrow> (unit, Condition) outcome" where
  "acquire_restore state self =
     (case cv_lock self of
        Recursive l \<Rightarrow>
          with_state (\<lambda>l'. self\<lparr>cv_lock := Recursive l'\<rparr>)
            (acquire_restore_RMutex (case state of Some c \<Rightarrow> c | None \<Rightarrow> rm_count l) l)
      | Plain l \<Rightarrow>
          (case Mutex_acquire True l of
             None \<Rightarrow> None
           | Some (Inl e, l') \<Rightarrow> raise e (self\<lparr>cv_lock := Plain l'\<rparr>)
           | Some (Inr locked, l') \<Rightarrow> return () (self\<lparr>cv_lock := Plain l'\<rparr>)))"

definition release_if_locked :: "Mutex \<Rightarrow> (unit, Mutex) outcome" where
  "release_if_locked mutex =
     (case m_window mutex of
        None \<Rightarrow> return () mutex
      | Some window \<Rightarrow>
          if memory window (group_rank window, lock_id) \<noteq> 0 then Mutex_release mutex
          else return () mutex)"

definition lock_reset :: "Condition \<Rightarrow> (unit, Condition) outcome" where
  "lock_reset self =
     (case cv_lock self of
        Recursive l \<Rightarrow>
          with_state (\<lambda>b. self\<lparr>cv_lock := Recursive (l\<lparr>rm_count := 0, rm_block := b\<rparr>)\<rparr>)
            (release_if_locked (rm_block l))
      | Plain l \<Rightarrow>
          with_state (\<lambda>b. self\<lparr>cv_lock := Plain b\<rparr>) (release_if_locked l))"

definition Condition_acquire :: "bool \<Rightarrow> Condition \<Rightarrow> (bool, Condition) outcome" where
  "Condition_acquire blocking self =
     (case cv_window self of
        None \<Rightarrow> raise (RuntimeError ''condition already freed'') self
      | Some window \<Rightarrow>
          with_state (\<lambda>l. self\<lparr>cv_lock := l\<rparr>) (lock_acquire blocking (cv_lock self)))"

definition Condition_release :: "Condition \<Rightarrow> (unit, Condition) outcome" where
  "Condition_release self =
     (case cv_window self of
        None \<Rightarrow> raise (RuntimeError ''condition already freed'') self
      | Some window \<Rightarrow> with_state (\<lambda>l. self\<lparr>cv_lock := l\<rparr>) (lock_release (cv_lock self)))"

definition Condition_locked :: "Condition \<Rightarrow> error + bool" where
  "Condition_locked self = lock_locked (cv_lock self)"

definition Condition_wait :: "Condition \<Rightarrow> (bool, Condition) outcome" where
  "Condition_wait self =
     (case cv_window self of
        None \<Rightarrow> raise (RuntimeError ''condition already freed'') self
      | Some window \<Rightarrow>
          (case Condition_locked self of
             Inl e \<Rightarrow> raise e self
           | Inr False \<Rightarrow> raise (RuntimeError ''cannot wait on unheld mutex'') self
           | Inr True \<Rightarrow>
               let window1 = window\<lparr>memory := enqueue (group_rank window) (memory window)\<rparr>;
                   self1 = self\<lparr>cv_window := Some window1\<rparr>
               in (case release_save self1 of
                     None \<Rightarrow> None
                   | Some (Inl e, self2) \<Rightarrow> raise e self2
                   | Some (Inr state, self2) \<Rightarrow>
                       (case sleep window1 of
                          None \<Rightarrow> None
                        | Some window2 \<Rightarrow>
                            (case acquire_restore state (self2\<lparr>cv_window := Some window2\<rparr>) of
                               None \<Rightarrow> None
                             | Some (Inl e, self3) \<Rightarrow> raise e self3
                             | Some (Inr u, self3) \<Rightarrow> return True self3)))))"

text \<open>
  \<^verbatim>\<open>wait_for\<close>. The predicate is a callable of the application; \<open>predicate i\<close> is the value
  of its \<open>i\<close>-th evaluation and \<open>truthy\<close> is Python's truth value of such a value.
\<close>

partial_function (option) wait_for_loop ::
  "('v \<Rightarrow> bool) \<Rightarrow> (nat \<Rightarrow> 'v) \<Rightarrow> nat \<Rightarrow> 'v \<Rightarrow> Condition \<Rightarrow> ((error + 'v) \<times> Condition) option" where
  "wait_for_loop truthy predicate i result self =
     (if \<not> truthy result then
        (case Condition_wait self of
           None \<Rightarrow> None
         | Some (Inl e, self') \<Rightarrow> Some (Inl e, self')
         | Some (Inr u, self') \<Rightarrow>
             wait_for_loop truthy predicate (Suc i) (predicate (Suc i)) self')
      else Some (Inr result, self))"

definition Condition_wait_for ::
  "('v \<Rightarrow> bool) \<Rightarrow> (nat \<Rightarrow> 'v) \<Rightarrow> Condition \<Rightarrow> ('v, Condition) outcome" where
  "Condition_wait_for truthy predicate self = wait_for_loop truthy predicate 0 (predicate 0) self"

definition Condition_notify :: "int \<Rightarrow> Condition \<Rightarrow> (int, Condition) outcome" where
  "Condition_notify n self =
     (case cv_window self of
        None \<Rightarrow> raise (RuntimeError ''condition already freed'') self
      | Some window \<Rightarrow>
          (case Condition_locked self of
             Inl e \<Rightarrow> raise e self
           | Inr False \<Rightarrow> raise (RuntimeError ''cannot notify on unheld mutex'') self
           | Inr True \<Rightarrow>
               let (processes, window1) = dequeue n window;
                   numprocs = int (length processes);
                   window2 = wakeup processes window1
               in return numprocs (self\<lparr>cv_window := Some window2\<rparr>)))"

definition Condition_notify_all :: "Condition \<Rightarrow> (int, Condition) outcome" where
  "Condition_notify_all self = Condition_notify (2 ^ 31 - 1) self"

definition Condition_free :: "Condition \<Rightarrow> (unit, Condition) outcome" where
  "Condition_free self =
     (case lock_reset self of
        None \<Rightarrow> None
      | Some (Inl e, self1) \<Rightarrow> raise e self1
      | Some (Inr u, self1) \<Rightarrow>
          (case (if cv_lock_owned self1 then lock_free (cv_lock self1)
                 else return () (cv_lock self1)) of
             None \<Rightarrow> None
           | Some (Inl e, l) \<Rightarrow> raise e (self1\<lparr>cv_lock := l\<rparr>)
           | Some (Inr u, l) \<Rightarrow> return () (self1\<lparr>cv_lock := l, cv_window := None\<rparr>)))"

text \<open>
  The waiter queue as the window encodes it: the TAIL slot holds the rank enqueued last,
  the NEXT slot of each waiter holds the waiter enqueued after it, and the NEXT slot of the
  last one holds the first, so that a single waiter is linked to itself.
\<close>

definition waiters :: "memory \<Rightarrow> int list \<Rightarrow> bool" where
  "waiters m qs =
     (distinct qs \<and> PROC_NULL \<notin> set qs \<and>
      (if qs = [] then m (tail_rank, tail_id) = PROC_NULL
       else m (tail_rank, tail_id) = last qs \<and>
            (\<forall>i<length qs. m (qs ! i, next_id) = qs ! (Suc i mod length qs))))"

subsection \<open>Sequential\<close>

text \<open>
  \<^verbatim>\<open>Sequential\<close> holds no shared state. Modelled from the spec: the runtime's \<^verbatim>\<open>Send\<close> and
  \<^verbatim>\<open>Recv\<close> of empty messages on the configured tag. The messages sent and not yet received
  are counted per source and destination; a send adds one and returns, a receive takes one
  from the given source and blocks (\<open>None\<close>) as long as there is none.
\<close>

type_synonym channels = "int \<times> int \<Rightarrow> nat"

definition Send :: "int \<Rightarrow> int \<Rightarrow> channels \<Rightarrow> channels" where
  "Send source dest ch = ch((source, dest) := Suc (ch (source, dest)))"

definition Recv :: "int \<Rightarrow> int \<Rightarrow> channels \<Rightarrow> channels option" where
  "Recv source dest ch =
     (if ch (source, dest) = 0 then None
      else Some (ch((source, dest) := ch (source, dest) - 1)))"

definition Sequential_begin :: "int \<Rightarrow> int \<Rightarrow> channels \<Rightarrow> channels option" where
  "Sequential_begin nprocs rank ch =
     (if nprocs = 1 then Some ch
      else if rank \<noteq> 0 then Recv (rank - 1) rank ch
      else Some ch)"

definition Sequential_end :: "int \<Rightarrow> int \<Rightarrow> channels \<Rightarrow> channels" where
  "Sequential_end nprocs rank ch =
     (if nprocs = 1 then ch
      else if rank \<noteq> nprocs - 1 then Send rank (rank + 1) ch
      else ch)"

text \<open>
  The ranks of a communicator of \<open>n\<close> processes use the section through its scope, so each
  of them calls \<^verbatim>\<open>begin\<close> and \<^verbatim>\<open>end\<close> in turn, any number of times. The state records, next
  to the messages in flight, how many calls of \<^verbatim>\<open>begin\<close> and of \<^verbatim>\<open>end\<close> have returned on
  each rank. A step that is not possible (a rank outside the communicator, a call out of
  turn, a receive with no message) is \<open>None\<close>.
\<close>

record seq_state =
  begun :: "int \<Rightarrow> nat"
  ended :: "int \<Rightarrow> nat"
  chan :: channels

datatype seq_call = Begin int | End int

definition seq_init :: seq_state where
  "seq_init = \<lparr>begun = (\<lambda>r. 0), ended = (\<lambda>r. 0), chan = (\<lambda>c. 0)\<rparr>"

fun seq_step :: "int \<Rightarrow> seq_call \<Rightarrow> seq_state \<Rightarrow> seq_state option" where
  "seq_step n (Begin r) s =
     (if 0 \<le> r \<and> r < n \<and> begun s r = ended s r then
        (case Sequential_begin n r (chan s) of
           None \<Rightarrow> None
         | Some ch \<Rightarrow> Some (s\<lparr>begun := (begun s)(r := Suc (begun s r)), chan := ch\<rparr>))
      else None)"
| "seq_step n (End r) s =
     (if 0 \<le> r \<and> r < n \<and> begun s r = Suc (ended s r) then
        Some (s\<lparr>ended := (ended s)(r := Suc (ended s r)),
                chan := Sequential_end n r (chan s)\<rparr>)
      else None)"

fun seq_run :: "int \<Rightarrow> seq_call list \<Rightarrow> seq_state \<Rightarrow> seq_state option" where
  "seq_run n [] s = Some s"
| "seq_run n (c # cs) s = (case seq_step n c s of None \<Rightarrow> None | Some s' \<Rightarrow> seq_run n cs s')"

definition seq_inv :: "int \<Rightarrow> seq_state \<Rightarrow> bool" where
  "seq_inv n s =
     ((\<forall>r. ended s r \<le> begun s r \<and> begun s r \<le> Suc (ended s r)) \<and>
      (n \<noteq> 1 \<longrightarrow> (\<forall>r. 0 < r \<and> r < n \<longrightarrow> chan s (r - 1, r) + begun s r = ended s (r - 1))))"

subsection \<open>Mutex, several ranks at once\<close>

text \<open>
  The ranks run \<^verbatim>\<open>acquire\<close> and \<^verbatim>\<open>release\<close> on one window, each step being one RMA
  operation or one reading of the caller's own segment. The program points are those of the
  source: in \<^verbatim>\<open>acquire\<close>, before the accumulate on the own NEXT slot (\<open>A_next\<close>), before the
  operation on the TAIL slot (\<open>A_tail\<close>), before the accumulate that links the predecessor
  (\<open>A_link prev\<close>), in the spin loop on the own LOCK slot (\<open>A_spin\<close>), after the loop
  and before the slot is read again for the result (\<open>A_seen\<close>) and before the accumulate on
  the own LOCK slot (\<open>A_flag locked\<close>); in \<^verbatim>\<open>release\<close>, before the compare-and-swap
  (\<open>R_cas\<close>), in the spin loop on the own NEXT slot (\<open>R_spin\<close>), after the loop and before
  the slot is read again (\<open>R_seen\<close>), before the accumulate that passes the lock on
  (\<open>R_pass next_rank\<close>) and before the accumulate on the own LOCK slot (\<open>R_flag\<close>). An
  idle rank starts the call it is given; \<^verbatim>\<open>acquire\<close> on a held mutex and \<^verbatim>\<open>release\<close> on
  an unheld one raise and change nothing.
\<close>

datatype mpc =
  Idle | A_next bool | A_tail bool | A_link int | A_spin | A_seen | A_flag bool
  | R_cas | R_spin | R_seen | R_pass int | R_flag

datatype mcall = Acquire bool | Release

record mstate =
  shared :: memory
  pc :: "int \<Rightarrow> mpc"

definition mutex_init :: mstate where
  "mutex_init = \<lparr>shared = Mutex_memory, pc = (\<lambda>r. Idle)\<rparr>"

definition mutex_step :: "int \<Rightarrow> mcall \<Rightarrow> mstate \<Rightarrow> mstate" where
  "mutex_step self_rank call s =
     (case pc s self_rank of
        Idle \<Rightarrow>
          (case call of
             Acquire blocking \<Rightarrow>
               if shared s (self_rank, lock_id) \<noteq> 0 then s
               else s\<lparr>pc := (pc s)(self_rank := A_next blocking)\<rparr>
           | Release \<Rightarrow>
               if shared s (self_rank, lock_id) = 0 then s
               else s\<lparr>pc := (pc s)(self_rank := R_cas)\<rparr>)
      | A_next blocking \<Rightarrow>
          s\<lparr>shared := Accumulate PROC_NULL self_rank next_id MPI_REPLACE (shared s),
            pc := (pc s)(self_rank := A_tail blocking)\<rparr>
      | A_tail blocking \<Rightarrow>
          (let (prev, m) =
                 (if blocking
                  then Fetch_and_op self_rank tail_rank tail_id MPI_REPLACE (shared s)
                  else Compare_and_swap self_rank PROC_NULL tail_rank tail_id (shared s));
               locked = (prev = PROC_NULL)
           in s\<lparr>shared := m,
                pc := (pc s)(self_rank :=
                        if blocking \<and> \<not> locked then A_link prev else A_flag locked)\<rparr>)
      | A_link prev \<Rightarrow>
          s\<lparr>shared := Accumulate self_rank prev next_id MPI_REPLACE (shared s),
            pc := (pc s)(self_rank := A_spin)\<rparr>
      | A_spin \<Rightarrow>
          if shared s (self_rank, lock_id) = 0 then s
          else s\<lparr>pc := (pc s)(self_rank := A_seen)\<rparr>
      | A_seen \<Rightarrow>
          s\<lparr>pc := (pc s)(self_rank := A_flag (shared s (self_rank, lock_id) \<noteq> 0))\<rparr>
      | A_flag locked \<Rightarrow>
          s\<lparr>shared := Accumulate (of_bool locked) self_rank lock_id MPI_REPLACE (shared s),
            pc := (pc s)(self_rank := Idle)\<rparr>
      | R_cas \<Rightarrow>
          (let (prev, m) = Compare_and_swap PROC_NULL self_rank tail_rank tail_id (shared s)
           in s\<lparr>shared := m,
                pc := (pc s)(self_rank := if prev \<noteq> self_rank then R_spin else R_flag)\<rparr>)
      | R_spin \<Rightarrow>
          if shared s (self_rank, next_id) = PROC_NULL then s
          else s\<lparr>pc := (pc s)(self_rank := R_seen)\<rparr>
      | R_seen \<Rightarrow>
          s\<lparr>pc := (pc s)(self_rank := R_pass (shared s (self_rank, next_id)))\<rparr>
      | R_pass next_rank \<Rightarrow>
          s\<lparr>shared := Accumulate 1 next_rank lock_id MPI_REPLACE (shared s),
            pc := (pc s)(self_rank := R_flag)\<rparr>
      | R_flag \<Rightarrow>
          s\<lparr>shared := Accumulate 0 self_rank lock_id MPI_REPLACE (shared s),
            pc := (pc s)(self_rank := Idle)\<rparr>)"

text \<open>
  A schedule names, for each step, the rank that takes it and the call that this rank
  starts if it is idle; ranks outside the group take no steps.
\<close>

fun mutex_run :: "int \<Rightarrow> (int \<times> mcall) list \<Rightarrow> mstate \<Rightarrow> mstate" where
  "mutex_run n [] s = s"
| "mutex_run n ((r, c) # sched) s =
     mutex_run n sched (if 0 \<le> r \<and> r < n then mutex_step r c s else s)"

text \<open>
  The invariant of the queue lock. The ranks that have put themselves on the TAIL slot and
  have not yet left form a queue \<open>q\<close>. Its first rank holds the lock or is about to take or
  to pass it; each later rank is about to link itself to its predecessor or has done so and
  spins with a LOCK slot of zero; every other rank is outside the protocol.
\<close>

definition link :: "mstate \<Rightarrow> int \<Rightarrow> int \<Rightarrow> bool" where
  "link s a b =
     (shared s (b, lock_id) = 0 \<and>
      (pc s b = A_link a \<and> shared s (a, next_id) = PROC_NULL \<or>
       pc s b = A_spin \<and> shared s (a, next_id) = b))"

definition chain :: "mstate \<Rightarrow> int list \<Rightarrow> bool" where
  "chain s q =
     ((\<forall>i. Suc i < length q \<longrightarrow> link s (q ! i) (q ! Suc i)) \<and>
      (q \<noteq> [] \<longrightarrow> shared s (last q, next_id) = PROC_NULL))"

definition outside :: "mstate \<Rightarrow> int \<Rightarrow> bool" where
  "outside s r =
     (case pc s r of
        Idle \<Rightarrow> shared s (r, lock_id) = 0
      | A_next b \<Rightarrow> shared s (r, lock_id) = 0
      | A_tail b \<Rightarrow> shared s (r, lock_id) = 0 \<and> shared s (r, next_id) = PROC_NULL
      | A_flag locked \<Rightarrow> \<not> locked \<and> shared s (r, lock_id) = 0
      | R_flag \<Rightarrow> True
      | _ \<Rightarrow> False)"

definition head_ok :: "mstate \<Rightarrow> int list \<Rightarrow> bool" where
  "head_ok s q =
     (case pc s (hd q) of
        A_flag locked \<Rightarrow> locked
      | A_spin \<Rightarrow> shared s (hd q, lock_id) \<noteq> 0
      | A_seen \<Rightarrow> shared s (hd q, lock_id) \<noteq> 0
      | Idle \<Rightarrow> shared s (hd q, lock_id) \<noteq> 0
      | R_cas \<Rightarrow> True
      | R_spin \<Rightarrow> 2 \<le> length q
      | R_seen \<Rightarrow> 2 \<le> length q \<and> shared s (hd q, next_id) = q ! 1
      | R_pass x \<Rightarrow> 2 \<le> length q \<and> x = q ! 1 \<and> shared s (hd q, next_id) = x
      | _ \<Rightarrow> False)"

definition minv :: "int \<Rightarrow> mstate \<Rightarrow> int list \<Rightarrow> bool" where
  "minv n s q =
     (distinct q \<and> set q \<subseteq> {0..<n} \<and>
      shared s (tail_rank, tail_id) = (if q = [] then PROC_NULL else last q) \<and>
      (\<forall>r. 0 \<le> r \<and> r < n \<and> r \<notin> set q \<longrightarrow> outside s r) \<and>
      (q \<noteq> [] \<longrightarrow> head_ok s q) \<and>
      chain s q)"

subsection \<open>RMutex, several ranks at once\<close>

text \<open>
  Each rank has its own \<^verbatim>\<open>RMutex\<close> on the shared mutex window: its count, whether it has
  freed its window, and the state that \<^verbatim>\<open>_release_save\<close> returned to \<^verbatim>\<open>wait\<close>. A rank is
  outside its calls or inside the \<^verbatim>\<open>Mutex.acquire\<close> or \<^verbatim>\<open>Mutex.release\<close> that a call of
  \<^verbatim>\<open>acquire\<close>, \<^verbatim>\<open>release\<close>, \<^verbatim>\<open>free\<close>, \<^verbatim>\<open>_release_save\<close> or \<^verbatim>\<open>_acquire_restore\<close> has
  started, which then runs step by step among the steps of the other ranks; inside a call
  the rank goes on with that call whatever the schedule names, since \<open>mutex_step\<close> looks at
  the call only when the rank is idle. The reading of
  the own LOCK slot by \<^verbatim>\<open>locked()\<close> and the assignments to the count are local to the rank
  and taken together with the step at which the call starts or returns. A call that raises
  leaves the state as it is at the \<^verbatim>\<open>raise\<close>.
\<close>

datatype rmode = Outside | In_acquire | In_release | In_restore | In_free

record rstate =
  r_mutex :: mstate
  r_count :: "int \<Rightarrow> int"
  r_freed :: "int \<Rightarrow> bool"
  r_saved :: "int \<Rightarrow> int option"
  r_mode :: "int \<Rightarrow> rmode"

definition rmutex_init :: rstate where
  "rmutex_init =
     \<lparr>r_mutex = mutex_init, r_count = (\<lambda>r. 0), r_freed = (\<lambda>r. False),
      r_saved = (\<lambda>r. None), r_mode = (\<lambda>r. Outside)\<rparr>"

definition rmutex_step :: "int \<Rightarrow> rmutex_op \<Rightarrow> rstate \<Rightarrow> rstate" where
  "rmutex_step self_rank call s =
     (let m = r_mutex s;
          count = r_count s self_rank;
          locked = (shared m (self_rank, lock_id) \<noteq> 0)
      in case r_mode s self_rank of
           Outside \<Rightarrow>
             (case call of
                Call_acquire blocking \<Rightarrow>
                  if r_freed s self_rank then s
                  else if locked then s\<lparr>r_count := (r_count s)(self_rank := count + 1)\<rparr>
                  else s\<lparr>r_mutex := mutex_step self_rank (Acquire blocking) m,
                         r_mode := (r_mode s)(self_rank := In_acquire)\<rparr>
              | Call_release \<Rightarrow>
                  if r_freed s self_rank \<or> \<not> locked then s
                  else if count - 1 = 0 then
                    s\<lparr>r_mutex := mutex_step self_rank Release m,
                      r_count := (r_count s)(self_rank := count - 1),
                      r_mode := (r_mode s)(self_rank := In_release)\<rparr>
                  else s\<lparr>r_count := (r_count s)(self_rank := count - 1)\<rparr>
              | Call_free \<Rightarrow>
                  if r_freed s self_rank then s\<lparr>r_count := (r_count s)(self_rank := 0)\<rparr>
                  else if locked then
                    s\<lparr>r_mutex := mutex_step self_rank Release m,
                      r_mode := (r_mode s)(self_rank := In_free)\<rparr>
                  else s\<lparr>r_count := (r_count s)(self_rank := 0),
                         r_freed := (r_freed s)(self_rank := True)\<rparr>
              | Call_release_save \<Rightarrow>
                  if r_freed s self_rank \<or> \<not> locked
                  then s\<lparr>r_count := (r_count s)(self_rank := 0)\<rparr>
                  else
                    s\<lparr>r_mutex := mutex_step self_rank Release m,
                      r_count := (r_count s)(self_rank := 0),
                      r_saved := (r_saved s)(self_rank := Some count),
                      r_mode := (r_mode s)(self_rank := In_release)\<rparr>
              | Call_acquire_restore \<Rightarrow>
                  (case r_saved s self_rank of
                     None \<Rightarrow> s
                   | Some state \<Rightarrow>
                       if r_freed s self_rank \<or> locked
                       then s\<lparr>r_saved := (r_saved s)(self_rank := None)\<rparr>
                       else s\<lparr>r_mutex := mutex_step self_rank (Acquire True) m,
                              r_mode := (r_mode s)(self_rank := In_restore)\<rparr>))
         | In_acquire \<Rightarrow>
             (case pc m self_rank of
                A_flag locked1 \<Rightarrow>
                  s\<lparr>r_mutex := mutex_step self_rank Release m,
                    r_count := (if locked1 then (r_count s)(self_rank := 1) else r_count s),
                    r_mode := (r_mode s)(self_rank := Outside)\<rparr>
              | _ \<Rightarrow> s\<lparr>r_mutex := mutex_step self_rank Release m\<rparr>)
         | In_restore \<Rightarrow>
             (case pc m self_rank of
                A_flag locked1 \<Rightarrow>
                  s\<lparr>r_mutex := mutex_step self_rank Release m,
                    r_count := (case r_saved s self_rank of
                                  None \<Rightarrow> r_count s
                                | Some state \<Rightarrow> (r_count s)(self_rank := state)),
                    r_saved := (r_saved s)(self_rank := None),
                    r_mode := (r_mode s)(self_rank := Outside)\<rparr>
              | _ \<Rightarrow> s\<lparr>r_mutex := mutex_step self_rank Release m\<rparr>)
         | In_release \<Rightarrow>
             (case pc m self_rank of
                R_flag \<Rightarrow>
                  s\<lparr>r_mutex := mutex_step self_rank Release m,
                    r_mode := (r_mode s)(self_rank := Outside)\<rparr>
              | _ \<Rightarrow> s\<lparr>r_mutex := mutex_step self_rank Release m\<rparr>)
         | In_free \<Rightarrow>
             (case pc m self_rank of
                R_flag \<Rightarrow>
                  s\<lparr>r_mutex := mutex_step self_rank Release m,
                    r_count := (r_count s)(self_rank := 0),
                    r_freed := (r_freed s)(self_rank := True),
                    r_mode := (r_mode s)(self_rank := Outside)\<rparr>
              | _ \<Rightarrow> s\<lparr>r_mutex := mutex_step self_rank Release m\<rparr>))"

fun rmutex_run :: "int \<Rightarrow> (int \<times> rmutex_op) list \<Rightarrow> rstate \<Rightarrow> rstate" where
  "rmutex_run n [] s = s"
| "rmutex_run n ((r, c) # sched) s =
     rmutex_run n sched (if 0 \<le> r \<and> r < n then rmutex_step r c s else s)"

text \<open>The program points of \<^verbatim>\<open>Mutex.acquire\<close>, of a blocking one, and of \<^verbatim>\<open>Mutex.release\<close>.\<close>

fun acquiring :: "mpc \<Rightarrow> bool" where
  "acquiring (A_next b) = True"
| "acquiring (A_tail b) = True"
| "acquiring (A_link a) = True"
| "acquiring A_spin = True"
| "acquiring A_seen = True"
| "acquiring (A_flag locked) = True"
| "acquiring p = False"

fun restoring :: "mpc \<Rightarrow> bool" where
  "restoring (A_next b) = b"
| "restoring (A_tail b) = b"
| "restoring (A_link a) = True"
| "restoring A_spin = True"
| "restoring A_seen = True"
| "restoring (A_flag locked) = locked"
| "restoring p = False"

fun releasing :: "mpc \<Rightarrow> bool" where
  "releasing R_cas = True"
| "releasing R_spin = True"
| "releasing R_seen = True"
| "releasing (R_pass x) = True"
| "releasing R_flag = True"
| "releasing p = False"

definition rank_ok :: "rstate \<Rightarrow> int \<Rightarrow> bool" where
  "rank_ok s r =
     ((\<forall>state. r_saved s r = Some state \<longrightarrow> 0 < state) \<and>
      (case r_mode s r of
         Outside \<Rightarrow>
           pc (r_mutex s) r = Idle \<and> 0 \<le> r_count s r \<and>
           (0 < r_count s r \<longleftrightarrow> \<not> r_freed s r \<and> shared (r_mutex s) (r, lock_id) \<noteq> 0) \<and>
           (r_freed s r \<longrightarrow> shared (r_mutex s) (r, lock_id) = 0)
       | In_acquire \<Rightarrow>
           acquiring (pc (r_mutex s) r) \<and> r_count s r = 0 \<and> \<not> r_freed s r
       | In_restore \<Rightarrow>
           restoring (pc (r_mutex s) r) \<and> r_saved s r \<noteq> None \<and> \<not> r_freed s r
       | In_release \<Rightarrow> releasing (pc (r_mutex s) r) \<and> r_count s r = 0 \<and> \<not> r_freed s r
       | In_free \<Rightarrow> releasing (pc (r_mutex s) r) \<and> \<not> r_freed s r))"

definition rinv :: "int \<Rightarrow> rstate \<Rightarrow> bool" where
  "rinv n s =
     ((\<exists>q. minv n (r_mutex s) q) \<and> (\<forall>r. 0 \<le> r \<and> r < n \<longrightarrow> rank_ok s r))"

text \<open>
  The \<^verbatim>\<open>RMutex\<close> object of a rank in a state: its view of the shared window, or
  \<^verbatim>\<open>MPI.WIN_NULL\<close> once it has freed it, and its count. \<^verbatim>\<open>count()\<close> and \<^verbatim>\<open>locked()\<close> of the
  rank are \<open>RMutex_count\<close> and \<open>RMutex_locked\<close> of this object.
\<close>

definition rmutex_of :: "int \<Rightarrow> rstate \<Rightarrow> int \<Rightarrow> RMutex" where
  "rmutex_of n s r =
     \<lparr>rm_block =
        \<lparr>m_window =
           (if r_freed s r then None
            else Some \<lparr>group_rank = r, group_size = n, memory = shared (r_mutex s)\<rparr>)\<rparr>,
      rm_count = r_count s r\<rparr>"

text \<open>Whether a result is an exception of a given kind.\<close>

definition is_error :: "(error \<Rightarrow> bool) \<Rightarrow> error + 'a \<Rightarrow> bool" where
  "is_error kind res = (case res of Inl e \<Rightarrow> kind e | Inr v \<Rightarrow> False)"

definition raises :: "(error \<Rightarrow> bool) \<Rightarrow> ('a, 's) outcome \<Rightarrow> bool" where
  "raises kind out = (case out of None \<Rightarrow> False | Some (res, s) \<Rightarrow> is_error kind res)"

subsection \<open>Facts about the spin loop and the RMA operations\<close>

lemma spinloop_Some:
  "spinloop r i s m = Some v \<Longrightarrow> m (r, i) \<noteq> s \<and> v = m (r, i)"
proof (induction rule: spinloop.raw_induct[rotated 1, consumes 1])
  case (1 spin r i s m v)
  then show ?case by (auto split: if_splits)
qed

lemma spinloop_eq:
  "spinloop r i s m = (if m (r, i) = s then None else Some (m (r, i)))"
proof (cases "m (r, i) = s")
  case True
  have "spinloop r i s m = None"
  proof (cases "spinloop r i s m")
    case (Some v)
    with spinloop_Some True show ?thesis by blast
  qed simp
  with True show ?thesis by simp
next
  case False
  then show ?thesis by (subst spinloop.simps) simp
qed

lemma RMA_simps:
  "Fetch_and_op v t d MPI_REPLACE m = (m (t, d), m((t, d) := v))"
  "Fetch_and_op v t d MPI_NO_OP m = (m (t, d), m)"
  "Accumulate v t d MPI_REPLACE m = m((t, d) := v)"
  by (simp_all add: Fetch_and_op_def Accumulate_def)

lemma slot_simps:
  "lock_id \<noteq> next_id" "lock_id \<noteq> tail_id" "next_id \<noteq> tail_id"
  "next_id \<noteq> lock_id" "tail_id \<noteq> lock_id" "tail_id \<noteq> next_id"
  "flag_id \<noteq> next_id" "flag_id \<noteq> tail_id" "next_id \<noteq> flag_id" "tail_id \<noteq> flag_id"
  by (simp_all add: lock_id_def next_id_def tail_id_def flag_id_def)



subsection \<open>Non-blocking acquire under contention\<close>

text \<open>
  Claim C5. A call \<^verbatim>\<open>acquire(blocking=False)\<close> by a rank that does not hold the mutex, made
  while the TAIL slot is not the null rank, returns \<^verbatim>\<open>False\<close>. It returns although the
  caller's LOCK slot is zero, so the spin loop is not entered; the window afterwards is the
  window before with the caller's own NEXT slot reset to the null rank and its own LOCK
  slot written with zero, so the TAIL slot is unchanged and no NEXT slot of another rank is
  written.
\<close>

theorem Mutex_acquire_nonblocking_contended:
  assumes "m_window self = Some window"
    and "memory window (group_rank window, lock_id) = 0"
    and "memory window (tail_rank, tail_id) \<noteq> PROC_NULL"
  shows "\<exists>m'. Mutex_acquire False self =
                 return False (self\<lparr>m_window := Some (window\<lparr>memory := m'\<rparr>)\<rparr>) \<and>
              m' = (memory window)((group_rank window, next_id) := PROC_NULL,
                                   (group_rank window, lock_id) := 0) \<and>
              m' (tail_rank, tail_id) = memory window (tail_rank, tail_id) \<and>
              (\<forall>r. r \<noteq> group_rank window \<longrightarrow>
                     m' (r, next_id) = memory window (r, next_id) \<and>
                     m' (r, lock_id) = memory window (r, lock_id))"
  using assms
  by (simp add: Mutex_acquire_def RMA_simps Compare_and_swap_def slot_simps Let_def)

theorem Mutex_acquire_nonblocking_contended_witness:
  "Mutex_acquire False
     \<lparr>m_window = Some \<lparr>group_rank = 1, group_size = 3,
        memory = Mutex_memory((tail_rank, tail_id) := 0, (0, lock_id) := 1)\<rparr>\<rparr> =
   return False
     \<lparr>m_window = Some \<lparr>group_rank = 1, group_size = 3,
        memory = Mutex_memory((tail_rank, tail_id) := 0, (0, lock_id) := 1,
                              (1, next_id) := PROC_NULL, (1, lock_id) := 0)\<rparr>\<rparr>"
  using Mutex_acquire_nonblocking_contended
    [of "\<lparr>m_window = Some \<lparr>group_rank = 1, group_size = 3,
          memory = Mutex_memory((tail_rank, tail_id) := 0, (0, lock_id) := 1)\<rparr>\<rparr>"
        "\<lparr>group_rank = 1, group_size = 3,
          memory = Mutex_memory((tail_rank, tail_id) := 0, (0, lock_id) := 1)\<rparr>"]
  by (simp add: Mutex_memory_def PROC_NULL_def tail_rank_def slot_simps)

subsection \<open>Acquire and release without contention\<close>






subsection \<open>Outcomes of the mutex operations\<close>

lemma Mutex_acquire_cases:
  assumes "Mutex_acquire blocking self = Some (res, self')"
  shows "(\<exists>e. res = Inl e \<and> self' = self) \<or>
         (\<exists>locked. res = Inr locked \<and> (blocking \<longrightarrow> locked) \<and>
            Mutex_locked self = Inr False \<and> Mutex_locked self' = Inr locked)"
  using assms
  by (auto simp: Mutex_acquire_def Mutex_locked_def raise_def return_def RMA_simps
        Compare_and_swap_def spinloop_eq Let_def slot_simps
      split: option.splits if_splits prod.splits)

lemma Mutex_release_cases:
  assumes "Mutex_release self = Some (res, self')"
  shows "(\<exists>e. res = Inl e \<and> self' = self \<and> Mutex_locked self \<noteq> Inr True) \<or>
         (res = Inr () \<and> Mutex_locked self = Inr True \<and> Mutex_locked self' = Inr False)"
  using assms
  by (auto simp: Mutex_release_def Mutex_locked_def raise_def return_def RMA_simps
        Compare_and_swap_def spinloop_eq Let_def slot_simps
      split: option.splits if_splits prod.splits)

lemma Mutex_free_cases:
  assumes "Mutex_free self = Some (res, self')"
  shows "res = Inr () \<and> m_window self' = None"
  using assms
  by (auto simp: Mutex_free_def raise_def return_def Mutex_locked_def
      split: option.splits if_splits prod.splits sum.splits dest!: Mutex_release_cases)

lemma RMutex_acquire_inv:
  assumes "RMutex_inv l" and "RMutex_acquire blocking l = Some (res, l')"
  shows "RMutex_inv l'"
  using assms
  by (auto simp: RMutex_acquire_def RMutex_inv_def RMutex_held_def RMutex_locked_def
        RMutex_count_def raise_def return_def
      split: sum.splits bool.splits option.splits prod.splits if_splits
      dest!: Mutex_acquire_cases)

lemma RMutex_release_inv:
  assumes "RMutex_inv l" and "RMutex_release l = Some (res, l')"
  shows "RMutex_inv l'"
  using assms
  by (auto simp: RMutex_release_def RMutex_inv_def RMutex_held_def RMutex_locked_def
        RMutex_count_def raise_def return_def Let_def
      split: sum.splits bool.splits option.splits prod.splits if_splits
      dest!: Mutex_release_cases)

lemma RMutex_free_inv:
  assumes "RMutex_free l = Some (res, l')"
  shows "RMutex_inv l'"
  using assms
  by (auto simp: RMutex_free_def RMutex_inv_def RMutex_held_def RMutex_locked_def
        RMutex_count_def raise_def return_def Mutex_locked_def
      split: sum.splits option.splits prod.splits
      dest!: Mutex_free_cases)

lemma release_save_inv:
  assumes "RMutex_inv l" and "release_save_RMutex l = Some (res, l')"
  shows "RMutex_inv l' \<and> (\<forall>state. res = Inr state \<longrightarrow> 0 < state)"
  using assms
  by (auto simp: release_save_RMutex_def RMutex_inv_def RMutex_held_def RMutex_locked_def
        RMutex_count_def raise_def return_def Let_def
      split: sum.splits option.splits prod.splits
      dest!: Mutex_release_cases)

lemma acquire_restore_inv:
  assumes "RMutex_inv l" and "0 < state" and "acquire_restore_RMutex state l = Some (res, l')"
  shows "RMutex_inv l'"
  using assms
  by (auto simp: acquire_restore_RMutex_def RMutex_inv_def RMutex_held_def RMutex_locked_def
        RMutex_count_def raise_def return_def Let_def
      split: sum.splits option.splits prod.splits
      dest!: Mutex_acquire_cases)


lemma rmutex_call_inv:
  assumes "RMutex_inv l" and "\<forall>state. saved = Some state \<longrightarrow> 0 < state"
    and "rmutex_call c (l, saved) = Some (l', saved')"
  shows "RMutex_inv l' \<and> (\<forall>state. saved' = Some state \<longrightarrow> 0 < state)"
proof (cases c)
  case (Call_acquire blocking)
  with assms show ?thesis
    by (auto split: option.splits dest: RMutex_acquire_inv)
next
  case Call_release
  with assms show ?thesis
    by (auto split: option.splits dest: RMutex_release_inv)
next
  case Call_free
  with assms show ?thesis
    by (auto split: option.splits dest: RMutex_free_inv)
next
  case Call_release_save
  with assms show ?thesis
    by (auto split: option.splits sum.splits dest: release_save_inv)
next
  case Call_acquire_restore
  with assms show ?thesis
    by (auto split: option.splits dest: acquire_restore_inv)
qed

lemma rmutex_calls_inv:
  assumes "RMutex_inv (fst s)" and "\<forall>state. snd s = Some state \<longrightarrow> 0 < state"
    and "rmutex_calls cs s = Some s'"
  shows "RMutex_inv (fst s') \<and> (\<forall>state. snd s' = Some state \<longrightarrow> 0 < state)"
  using assms
proof (induction cs arbitrary: s)
  case Nil
  then show ?case by simp
next
  case (Cons c cs)
  from Cons.prems(3) obtain s1 where s1: "rmutex_call c s = Some s1" "rmutex_calls cs s1 = Some s'"
    by (auto split: option.splits)
  from rmutex_call_inv [of "fst s" "snd s" c "fst s1" "snd s1"] s1(1) Cons.prems(1,2)
  have "RMutex_inv (fst s1) \<and> (\<forall>state. snd s1 = Some state \<longrightarrow> 0 < state)"
    by simp
  with Cons.IH [of s1] s1(2) show ?case by blast
qed

lemmas Mutex_eval =
  Mutex_init_def Mutex_locked_def Mutex_acquire_def Mutex_release_def Mutex_free_def
  return_def raise_def RMA_simps Compare_and_swap_def Mutex_memory_def slot_simps
  tail_rank_def PROC_NULL_def Let_def spinloop_eq

lemmas RMutex_eval =
  RMutex_init_def RMutex_acquire_def RMutex_release_def RMutex_free_def RMutex_locked_def
  RMutex_count_def RMutex_held_def release_save_RMutex_def acquire_restore_RMutex_def

subsection \<open>The recursion count of one caller\<close>

text \<open>
  For one caller whose calls all return without waiting for another rank, the count stays
  positive exactly when the underlying mutex is held, and not negative.
\<close>

lemma rmutex_calls_count:
  assumes "(0 < RMutex_count lck \<longleftrightarrow> RMutex_held lck) \<and> 0 \<le> RMutex_count lck"
    and "rmutex_calls cs (lck, None) = Some (lck', saved)"
  shows "(0 < RMutex_count lck' \<longleftrightarrow> RMutex_held lck') \<and> 0 \<le> RMutex_count lck'"
  using rmutex_calls_inv [of "(lck, None)" cs "(lck', saved)"] assms
  by (simp add: RMutex_inv_def)

subsection \<open>The values observed by Counter.next\<close>

lemma wrap_add_left: "wrap t (wrap t a + b) = wrap t (a + b)"
proof (cases t)
  case (Signed w)
  have "signed_take_bit (w - 1) (signed_take_bit (w - 1) a + b) = signed_take_bit (w - 1) (a + b)"
    using signed_take_bit_add [of "w - 1" "signed_take_bit (w - 1) a" b]
      signed_take_bit_add [of "w - 1" a b]
    by simp
  with Signed show ?thesis by simp
next
  case (Unsigned w)
  then show ?thesis by (simp add: take_bit_eq_mod mod_simps)
qed

lemma wrap_in_range: "in_range t v \<Longrightarrow> wrap t v = v"
proof (cases t)
  case (Signed w)
  assume "in_range t v"
  with Signed show ?thesis
    by (simp add: signed_take_bit_int_eq_self)
next
  case (Unsigned w)
  assume "in_range t v"
  with Unsigned show ?thesis
    by (simp add: take_bit_int_eq_self)
qed

lemma Counter_next_default:
  assumes "in_range t step"
  shows "Counter_next None (Counter_object start step t root) (Counter_memory v root) =
     (Inr v, Counter_memory (wrap t (v + step)) root)"
  using assms
  by (simp add: Counter_next_def Counter_object_def Fetch_and_op_typed_def Counter_memory_def)

lemma Counter_nexts_wrap:
  assumes "in_range t step"
  shows "Counter_nexts (replicate n (Counter_object start step t root))
           (Counter_memory (wrap t v) root) =
         (map (\<lambda>i. Inr (wrap t (v + int i * step))) [0..<n],
          Counter_memory (wrap t (v + int n * step)) root)"
proof (induction n arbitrary: v)
  case 0
  show ?case by simp
next
  case (Suc n)
  let ?c = "Counter_object start step t root"
  have "Counter_nexts (replicate (Suc n) ?c) (Counter_memory (wrap t v) root) =
      (Inr (wrap t v) #
         fst (Counter_nexts (replicate n ?c) (Counter_memory (wrap t (v + step)) root)),
       snd (Counter_nexts (replicate n ?c) (Counter_memory (wrap t (v + step)) root)))"
    by (simp add: Counter_next_default [OF assms] wrap_add_left split: prod.splits)
  also have "\<dots> =
      (Inr (wrap t v) # map (\<lambda>i. Inr (wrap t (v + step + int i * step))) [0..<n],
       Counter_memory (wrap t (v + step + int n * step)) root)"
    by (simp add: Suc.IH)
  also have "\<dots> =
      (map (\<lambda>i. Inr (wrap t (v + int i * step))) [0..<Suc n],
       Counter_memory (wrap t (v + int (Suc n) * step)) root)"
    by (simp add: upt_rec [of 0 "Suc n"] map_Suc_upt [symmetric] algebra_simps del: upt_Suc)
  finally show ?case .
qed

text \<open>
  Claim C2, as stated, fails: the slot is a machine integer, so the values wrap around,
  and a step of zero returns the same value every time. With an unsigned 8-bit counter
  started at 255 with step 1, the second call returns 0 and not 256; with start 5 and step
  0 two calls both return 5.
\<close>

theorem Counter_next_progression_counterexample:
  "fst (Counter_nexts (replicate 2 (Counter_object 255 1 (Unsigned 8) 0))
          (Counter_memory 255 0)) = [Inr 255, Inr 0] \<and>
   (0 :: int) \<noteq> 255 + 1 * 1 \<and>
   fst (Counter_nexts (replicate 2 (Counter_object 5 0 (Signed 32) 0))
          (Counter_memory 5 0)) = [Inr 5, Inr 5]"
  by (simp add: numeral_2_eq_2 Counter_next_def Counter_object_def Fetch_and_op_typed_def
        Counter_memory_def signed_take_bit_int_eq_self)

text \<open>
  Claim C2, amended. \<^verbatim>\<open>next()\<close> returns the value before the increment and adds the
  configured step: in a sequence of \<open>n\<close> calls with the default increment on a counter of
  element type \<open>t\<close>, the \<open>i\<close>-th observed value is \<open>start + i * step\<close> reduced into \<open>t\<close>.
  If all of these sums lie in the range of \<open>t\<close>, the \<open>i\<close>-th observed value is
  \<open>start + i * step\<close> itself, and for a step other than zero the observed values are
  pairwise distinct.
\<close>

theorem Counter_next_progression:
  assumes "in_range t start" and "in_range t step"
  shows "fst (Counter_nexts (replicate n (Counter_object start step t root))
                (Counter_memory start root)) =
           map (\<lambda>i. Inr (wrap t (start + int i * step))) [0..<n] \<and>
         ((\<forall>i<n. in_range t (start + int i * step)) \<longrightarrow>
            fst (Counter_nexts (replicate n (Counter_object start step t root))
                   (Counter_memory start root)) =
              map (\<lambda>i. Inr (start + int i * step)) [0..<n] \<and>
            (step \<noteq> 0 \<longrightarrow>
               distinct (fst (Counter_nexts (replicate n (Counter_object start step t root))
                   (Counter_memory start root)))))"
proof -
  let ?obs = "fst (Counter_nexts (replicate n (Counter_object start step t root))
                (Counter_memory start root))"
  have obs: "?obs = map (\<lambda>i. Inr (wrap t (start + int i * step))) [0..<n]"
    using Counter_nexts_wrap [OF assms(2), of n start root start] wrap_in_range [OF assms(1)]
    by simp
  have "?obs = map (\<lambda>i. Inr (start + int i * step)) [0..<n] \<and> (step \<noteq> 0 \<longrightarrow> distinct ?obs)"
    if range: "\<forall>i<n. in_range t (start + int i * step)"
  proof -
    have eq: "?obs = map (\<lambda>i. Inr (start + int i * step)) [0..<n]"
      unfolding obs using range by (simp add: wrap_in_range)
    have "distinct ?obs" if "step \<noteq> 0"
      unfolding eq using that by (simp add: distinct_map inj_on_def)
    with eq show ?thesis by blast
  qed
  with obs show ?thesis by blast
qed

theorem Counter_next_progression_witness:
  "in_range (Signed 32) 10 \<and> in_range (Signed 32) 3 \<and>
   fst (Counter_nexts (replicate 5 (Counter_object 10 3 (Signed 32) 0)) (Counter_memory 10 0)) =
     [Inr 10, Inr 13, Inr 16, Inr 19, Inr 22] \<and>
   distinct (fst (Counter_nexts (replicate 5 (Counter_object 10 3 (Signed 32) 0))
     (Counter_memory 10 0)))"
proof -
  have r: "in_range (Signed 32) 10" "in_range (Signed 32) 3"
    by simp_all
  have rs: "\<forall>i<5. in_range (Signed 32) (10 + int i * 3)"
    by auto
  let ?obs = "fst (Counter_nexts (replicate 5 (Counter_object 10 3 (Signed 32) 0))
     (Counter_memory 10 0))"
  have eq: "map (\<lambda>i. Inr (10 + int i * 3) :: error + int) [0..<5] =
      [Inr 10, Inr 13, Inr 16, Inr 19, Inr 22]"
    by (simp add: upt_rec)
  have "?obs = map (\<lambda>i. Inr (10 + int i * 3)) [0..<5] \<and> ((3 :: int) \<noteq> 0 \<longrightarrow> distinct ?obs)"
    using Counter_next_progression [OF r, of 5 0] rs by blast
  then have "?obs = [Inr 10, Inr 13, Inr 16, Inr 19, Inr 22]" and "distinct ?obs"
    using eq by simp_all
  with r show ?thesis
    by blast
qed

subsection \<open>Condition.wait_for with a predicate that holds at once\<close>

lemma wait_for_truthy:
  assumes "truthy (predicate 0)"
  shows "Condition_wait_for truthy predicate self = return (predicate 0) self"
  using assms
  by (simp add: Condition_wait_for_def wait_for_loop.simps return_def)

lemma wait_for_falsy_freed:
  assumes "\<not> truthy (predicate 0)" and "cv_window self = None"
  shows "Condition_wait_for truthy predicate self =
           raise (RuntimeError ''condition already freed'') self"
  using assms
  by (simp add: Condition_wait_for_def wait_for_loop.simps [of _ _ 0] Condition_wait_def raise_def)

text \<open>
  Claim C10. If the first evaluation of the predicate gives a truthy value, \<^verbatim>\<open>wait_for\<close>
  returns that value and leaves the condition as it is, whatever the condition is: nothing
  is assumed about its window or its lock, so no check that the caller holds the lock or
  that the condition is not freed is made, and \<^verbatim>\<open>wait()\<close>, which makes both, is not called.
\<close>

theorem Condition_wait_for_truthy:
  assumes "truthy (predicate 0)"
  shows "Condition_wait_for truthy predicate self = return (predicate 0) self \<and>
         \<not> raises NotHeld (Condition_wait_for truthy predicate self) \<and>
         \<not> raises AlreadyFreed (Condition_wait_for truthy predicate self)"
  using wait_for_truthy [of truthy predicate self] assms
  by (simp add: raises_def is_error_def return_def)

theorem Condition_wait_for_truthy_witness:
  "Condition_wait_for (\<lambda>b. b) (\<lambda>i. True)
     \<lparr>cv_lock = Plain \<lparr>m_window = None\<rparr>, cv_lock_owned = False, cv_window = None\<rparr> =
   return True \<lparr>cv_lock = Plain \<lparr>m_window = None\<rparr>, cv_lock_owned = False, cv_window = None\<rparr> \<and>
   raises AlreadyFreed
     (Condition_wait \<lparr>cv_lock = Plain \<lparr>m_window = None\<rparr>, cv_lock_owned = False, cv_window = None\<rparr>) \<and>
   Condition_wait_for (\<lambda>b. b) (\<lambda>i. True) (Condition_init 2 1 None) =
   return True (Condition_init 2 1 None) \<and>
   raises NotHeld (Condition_wait (Condition_init 2 1 None))"
proof -
  let ?c = "\<lparr>cv_lock = Plain \<lparr>m_window = None\<rparr>, cv_lock_owned = False, cv_window = None\<rparr>"
  have "raises AlreadyFreed (Condition_wait ?c)"
    by (simp add: Condition_wait_def raises_def is_error_def raise_def AlreadyFreed_def)
  moreover have "raises NotHeld (Condition_wait (Condition_init 2 1 None))"
    by (simp add: Condition_wait_def Condition_init_def Condition_locked_def lock_locked_def
          RMutex_eval Mutex_eval raises_def is_error_def NotHeld_def)
  ultimately show ?thesis
    using Condition_wait_for_truthy [of "\<lambda>b. b" "\<lambda>i. True" ?c]
      Condition_wait_for_truthy [of "\<lambda>b. b" "\<lambda>i. True" "Condition_init 2 1 None"]
    by simp
qed

subsection \<open>Operations after free\<close>

lemma RMutex_free_cases:
  assumes "RMutex_free self = Some (res, self')"
  shows "res = Inr () \<and> m_window (rm_block self') = None \<and> rm_count self' = 0"
  using assms
  by (auto simp: RMutex_free_def raise_def return_def
      split: option.splits prod.splits sum.splits dest!: Mutex_free_cases)

lemma Condition_free_cases:
  assumes "Condition_free self = Some (res, self')"
  shows "res = Inr () \<and> cv_window self' = None"
  using assms
  by (auto simp: Condition_free_def raise_def return_def lock_reset_def with_state_def
        release_if_locked_def lock_free_def Mutex_locked_def
      split: option.splits prod.splits sum.splits if_splits lock.splits
      dest!: Mutex_release_cases Mutex_free_cases RMutex_free_cases)

text \<open>
  Claim C3, as stated, fails: after \<^verbatim>\<open>free()\<close> of a condition, \<^verbatim>\<open>wait_for\<close> with a predicate
  that holds at once returns the value of the predicate, and \<^verbatim>\<open>count()\<close> of the freed
  recursive mutex returns zero; neither raises.
\<close>

theorem AlreadyFreed_after_free_counterexample:
  "Condition_free (Condition_init 2 0 None) =
     return () \<lparr>cv_lock = Recursive \<lparr>rm_block = \<lparr>m_window = None\<rparr>, rm_count = 0\<rparr>,
                cv_lock_owned = True, cv_window = None\<rparr> \<and>
   Condition_wait_for (\<lambda>b. b) (\<lambda>i. True)
     \<lparr>cv_lock = Recursive \<lparr>rm_block = \<lparr>m_window = None\<rparr>, rm_count = 0\<rparr>,
      cv_lock_owned = True, cv_window = None\<rparr> =
     return True \<lparr>cv_lock = Recursive \<lparr>rm_block = \<lparr>m_window = None\<rparr>, rm_count = 0\<rparr>,
                  cv_lock_owned = True, cv_window = None\<rparr> \<and>
   RMutex_free (RMutex_init 2 0) = return () \<lparr>rm_block = \<lparr>m_window = None\<rparr>, rm_count = 0\<rparr> \<and>
   RMutex_count \<lparr>rm_block = \<lparr>m_window = None\<rparr>, rm_count = 0\<rparr> = 0"
  by (simp add: Condition_free_def Condition_init_def lock_reset_def with_state_def
        release_if_locked_def lock_free_def RMutex_eval Mutex_eval
        Condition_wait_for_def wait_for_loop.simps)

text \<open>
  Claim C3, amended. After \<^verbatim>\<open>free()\<close> has returned, \<^verbatim>\<open>Counter.next\<close>, \<^verbatim>\<open>acquire\<close>,
  \<^verbatim>\<open>release\<close> and \<^verbatim>\<open>locked\<close> of \<^verbatim>\<open>Mutex\<close> and of \<^verbatim>\<open>RMutex\<close>, and \<^verbatim>\<open>acquire\<close>, \<^verbatim>\<open>release\<close>,
  \<^verbatim>\<open>wait\<close>, \<^verbatim>\<open>notify\<close> and \<^verbatim>\<open>notify_all\<close> of \<^verbatim>\<open>Condition\<close> raise the error of kind
  AlreadyFreed. \<^verbatim>\<open>Condition.wait_for\<close> raises it if the first evaluation of the predicate
  is falsy, and returns the value of the predicate otherwise; \<^verbatim>\<open>RMutex.count\<close> returns
  zero.
\<close>

theorem AlreadyFreed_after_free:
  assumes "Mutex_free mtx = Some (r1, mtx')"
    and "RMutex_free rmtx = Some (r2, rmtx')"
    and "Condition_free cv = Some (r3, cv')"
  shows "is_error AlreadyFreed (fst (Counter_next incr (Counter_free c) m)) \<and>
         raises AlreadyFreed (Mutex_acquire blocking mtx') \<and>
         raises AlreadyFreed (Mutex_release mtx') \<and>
         is_error AlreadyFreed (Mutex_locked mtx') \<and>
         raises AlreadyFreed (RMutex_acquire blocking rmtx') \<and>
         raises AlreadyFreed (RMutex_release rmtx') \<and>
         is_error AlreadyFreed (RMutex_locked rmtx') \<and>
         RMutex_count rmtx' = 0 \<and>
         raises AlreadyFreed (Condition_acquire blocking cv') \<and>
         raises AlreadyFreed (Condition_release cv') \<and>
         raises AlreadyFreed (Condition_wait cv') \<and>
         raises AlreadyFreed (Condition_notify n cv') \<and>
         raises AlreadyFreed (Condition_notify_all cv') \<and>
         (if truthy (predicate 0)
          then Condition_wait_for truthy predicate cv' = return (predicate 0) cv'
          else raises AlreadyFreed (Condition_wait_for truthy predicate cv'))"
proof -
  have counter: "is_error AlreadyFreed (fst (Counter_next incr (Counter_free c) m))"
    by (simp add: Counter_next_def Counter_free_def is_error_def AlreadyFreed_def)
  from Mutex_free_cases [OF assms(1)] have m: "m_window mtx' = None"
    by simp
  have mutex: "raises AlreadyFreed (Mutex_acquire blocking mtx')"
      "raises AlreadyFreed (Mutex_release mtx')" "is_error AlreadyFreed (Mutex_locked mtx')"
    using m
    by (simp_all add: Mutex_acquire_def Mutex_release_def Mutex_locked_def raises_def
          is_error_def raise_def AlreadyFreed_def)
  from RMutex_free_cases [OF assms(2)]
  have r: "m_window (rm_block rmtx') = None" "rm_count rmtx' = 0"
    by simp_all
  have rmutex: "raises AlreadyFreed (RMutex_acquire blocking rmtx')"
      "raises AlreadyFreed (RMutex_release rmtx')" "is_error AlreadyFreed (RMutex_locked rmtx')"
      "RMutex_count rmtx' = 0"
    using r
    by (simp_all add: RMutex_acquire_def RMutex_release_def RMutex_locked_def RMutex_count_def
          Mutex_locked_def raises_def is_error_def raise_def AlreadyFreed_def)
  from Condition_free_cases [OF assms(3)] have cw: "cv_window cv' = None"
    by simp
  have cond: "raises AlreadyFreed (Condition_acquire blocking cv')"
      "raises AlreadyFreed (Condition_release cv')" "raises AlreadyFreed (Condition_wait cv')"
      "raises AlreadyFreed (Condition_notify n cv')"
      "raises AlreadyFreed (Condition_notify_all cv')"
    using cw
    by (simp_all add: Condition_acquire_def Condition_release_def Condition_wait_def
          Condition_notify_def Condition_notify_all_def raises_def is_error_def raise_def
          AlreadyFreed_def)
  have wf: "if truthy (predicate 0)
      then Condition_wait_for truthy predicate cv' = return (predicate 0) cv'
      else raises AlreadyFreed (Condition_wait_for truthy predicate cv')"
    using wait_for_truthy [of truthy predicate cv'] wait_for_falsy_freed [of truthy predicate cv'] cw
    by (simp add: raises_def is_error_def raise_def AlreadyFreed_def)
  from counter mutex rmutex cond wf show ?thesis
    by blast
qed

theorem AlreadyFreed_after_free_witness:
  "Mutex_free (Mutex_init 2 0) = Some (Inr (), \<lparr>m_window = None\<rparr>) \<and>
   RMutex_free (RMutex_init 2 0) = Some (Inr (), \<lparr>rm_block = \<lparr>m_window = None\<rparr>, rm_count = 0\<rparr>) \<and>
   Condition_free (Condition_init 2 0 (Some (Plain (Mutex_init 2 0)))) =
     Some (Inr (), \<lparr>cv_lock = Plain (Mutex_init 2 0), cv_lock_owned = False, cv_window = None\<rparr>) \<and>
   raises AlreadyFreed (Mutex_acquire True \<lparr>m_window = None\<rparr>) \<and>
   raises AlreadyFreed (RMutex_release \<lparr>rm_block = \<lparr>m_window = None\<rparr>, rm_count = 0\<rparr>) \<and>
   raises AlreadyFreed
     (Condition_notify 1 \<lparr>cv_lock = Plain (Mutex_init 2 0), cv_lock_owned = False, cv_window = None\<rparr>) \<and>
   raises AlreadyFreed
     (Condition_wait_for (\<lambda>b. b) (\<lambda>i. False)
        \<lparr>cv_lock = Plain (Mutex_init 2 0), cv_lock_owned = False, cv_window = None\<rparr>)"
proof -
  have h1: "Mutex_free (Mutex_init 2 0) = Some (Inr (), \<lparr>m_window = None\<rparr>)"
    by (simp add: Mutex_eval)
  have h2: "RMutex_free (RMutex_init 2 0) =
      Some (Inr (), \<lparr>rm_block = \<lparr>m_window = None\<rparr>, rm_count = 0\<rparr>)"
    by (simp add: RMutex_eval Mutex_eval)
  have h3: "Condition_free (Condition_init 2 0 (Some (Plain (Mutex_init 2 0)))) =
      Some (Inr (), \<lparr>cv_lock = Plain (Mutex_init 2 0), cv_lock_owned = False, cv_window = None\<rparr>)"
    by (simp add: Condition_free_def Condition_init_def lock_reset_def with_state_def
          release_if_locked_def lock_free_def Mutex_eval)
  from AlreadyFreed_after_free [OF h1 h2 h3, of None undefined undefined True 1 "\<lambda>b. b" "\<lambda>i. False"]
    h1 h2 h3 show ?thesis
    by simp
qed

subsection \<open>The waiter queue of a condition\<close>

lemma waiters_next:
  assumes "waiters m qs" "i < length qs"
  shows "m (qs ! i, next_id) = qs ! (Suc i mod length qs)"
  using assms by (auto simp: waiters_def split: if_splits)

lemma dequeue_loop_run:
  assumes w: "waiters m qs" and ne: "qs \<noteq> []"
    and j: "j \<le> min (nat M) (length qs)"
  shows "dequeue_loop M (take j qs) (qs ! (j mod length qs)) (j = length qs) m =
           (take (min (nat M) (length qs)) qs,
            qs ! (min (nat M) (length qs) mod length qs),
            min (nat M) (length qs) = length qs, m)"
  using j
proof (induction "min (nat M) (length qs) - j" arbitrary: j)
  case 0
  then have eq: "j = min (nat M) (length qs)" by simp
  then have stop: "\<not> (int j < M \<and> j \<noteq> length qs)"
    by (auto simp: min_def split: if_splits)
  have "dequeue_loop M (take j qs) (qs ! (j mod length qs)) (j = length qs) m =
      (take j qs, qs ! (j mod length qs), j = length qs, m)"
    by (subst dequeue_loop.simps) (use stop "0.prems" in \<open>auto simp: min_absorb2\<close>)
  with eq show ?case by simp
next
  case (Suc d)
  let ?k = "length qs"
  from Suc.hyps(2) Suc.prems have lt: "j < min (nat M) ?k" by linarith
  then have jk: "j < ?k" and jM: "int j < M" by auto
  have d: "distinct qs" using w by (simp add: waiters_def)
  have nxt: "m (qs ! j, next_id) = qs ! (Suc j mod ?k)"
    using waiters_next [OF w jk] .
  have tk: "take j qs @ [qs ! j] = take (Suc j) qs"
    using jk by (simp add: take_Suc_conv_app_nth)
  have hd: "hd (take (Suc j) qs) = qs ! 0"
    using ne by (cases qs) simp_all
  have dr: "(qs ! 0 = qs ! (Suc j mod ?k)) = (Suc j = ?k)"
  proof (cases "Suc j = ?k")
    case True
    then show ?thesis by simp
  next
    case False
    with jk have "Suc j < ?k" by simp
    with nth_eq_iff_index_eq [OF d, of 0 "Suc j"] False ne show ?thesis by simp
  qed
  have step: "dequeue_loop M (take j qs) (qs ! (j mod ?k)) (j = ?k) m =
      dequeue_loop M (take (Suc j) qs) (qs ! (Suc j mod ?k)) (Suc j = ?k) m"
    by (subst dequeue_loop.simps) (use jk jM nxt tk hd dr in \<open>simp add: RMA_simps\<close>)
  have "d = min (nat M) ?k - Suc j" using Suc.hyps(2) by simp
  moreover have "Suc j \<le> min (nat M) ?k" using lt by simp
  ultimately show ?case using Suc.hyps(1) [of "Suc j"] step by simp
qed

lemma dequeue_waiters:
  fixes n :: int and window :: win and qs :: "int list"
  assumes w: "waiters (memory window) qs"
  defines "J \<equiv> min (nat (max 0 (min n (group_size window)))) (length qs)"
  shows "dequeue n window =
           (take J qs,
            window\<lparr>memory :=
              (if qs = [] then memory window
               else if J < length qs then (memory window)((last qs, next_id) := qs ! J)
               else (memory window)((tail_rank, tail_id) := PROC_NULL))\<rparr>)"
proof (cases "qs = []")
  case True
  with w show ?thesis
    by (simp add: dequeue_def waiters_def RMA_simps J_def)
next
  case False
  let ?m = "memory window"
  let ?M = "max 0 (min n (group_size window))"
  let ?k = "length qs"
  from w False have tail: "?m (tail_rank, tail_id) = last qs"
    by (simp add: waiters_def)
  from False have "last qs \<in> set qs"
    by simp
  with w have nn: "last qs \<noteq> PROC_NULL"
    unfolding waiters_def by metis
  have "?m (last qs, next_id) = qs ! (Suc (?k - 1) mod ?k)"
    using waiters_next [OF w, of "?k - 1"] False by (simp add: last_conv_nth)
  then have head: "?m (last qs, next_id) = qs ! 0"
    using False by simp
  have run: "dequeue_loop ?M [] (qs ! 0) False ?m =
      (take J qs, qs ! (J mod ?k), J = ?k, ?m)"
    using dequeue_loop_run [OF w False, of 0 ?M] False by (simp add: J_def)
  have pre: "Fetch_and_op PROC_NULL tail_rank tail_id MPI_NO_OP ?m = (last qs, ?m)"
    using tail by (simp add: RMA_simps)
  have hd2: "Fetch_and_op PROC_NULL (last qs) next_id MPI_NO_OP ?m = (qs ! 0, ?m)"
    using head by (simp add: RMA_simps)
  have Jk: "(J < ?k) = (J \<noteq> ?k)"
    by (auto simp: J_def)
  have Jmod: "J < ?k \<Longrightarrow> J mod ?k = J"
    by simp
  show ?thesis
    unfolding dequeue_def
    apply (simp only: Let_def pre hd2 run split_conv nn if_True)
    using False Jk Jmod by (simp add: RMA_simps)
qed

lemma ranks_length:
  assumes "distinct qs" and "set qs \<subseteq> {0..<g}"
  shows "length qs \<le> nat g"
proof -
  have "length qs = card (set qs)"
    using assms(1) by (simp add: distinct_card)
  also have "\<dots> \<le> card {0..<g}"
    using assms(2) by (intro card_mono) simp_all
  finally show ?thesis
    by simp
qed

lemma wakeup_memory:
  "foldl (\<lambda>m rank. Accumulate 1 rank flag_id MPI_REPLACE m) m ps (r, d) =
     (if d = flag_id \<and> r \<in> set ps then 1 else m (r, d))"
  by (induction ps arbitrary: m) (auto simp: RMA_simps)

lemma waiters_enqueue:
  assumes w: "waiters m qs" and p: "p \<notin> set qs" "p \<noteq> PROC_NULL"
  shows "waiters (enqueue p m) (qs @ [p])"
proof (cases "qs = []")
  case True
  with w p show ?thesis
    by (simp add: waiters_def enqueue_def RMA_simps slot_simps)
next
  case False
  let ?k = "length qs"
  from False have lin: "last qs \<in> set qs" by simp
  from w False have tail: "m (tail_rank, tail_id) = last qs"
    by (simp add: waiters_def)
  from w lin have nn: "last qs \<noteq> PROC_NULL"
    unfolding waiters_def by metis
  from w have d: "distinct qs" by (simp add: waiters_def)
  have "m (last qs, next_id) = qs ! (Suc (?k - 1) mod ?k)"
    using waiters_next [OF w, of "?k - 1"] False by (simp add: last_conv_nth)
  then have head: "m (last qs, next_id) = qs ! 0"
    using False by simp
  have lp: "last qs \<noteq> p" using lin p by auto
  have eq: "enqueue p m = m((tail_rank, tail_id) := p, (last qs, next_id) := p, (p, next_id) := qs ! 0)"
    using tail nn head by (simp add: enqueue_def RMA_simps slot_simps Let_def)
  have nxt: "(enqueue p m) ((qs @ [p]) ! i, next_id) = (qs @ [p]) ! (Suc i mod Suc ?k)"
    if i: "i < Suc ?k" for i
  proof -
    consider "i = ?k" | "i = ?k - 1" "i < ?k" | "i < ?k - 1"
      using i by linarith
    then show ?thesis
    proof cases
      case 1
      then show ?thesis using False by (simp add: eq nth_append)
    next
      case 2
      then have "qs ! i = last qs" using False by (simp add: last_conv_nth)
      with 2 lp show ?thesis using False by (simp add: eq nth_append)
    next
      case 3
      then have ik: "i < ?k" "Suc i < ?k" by simp_all
      then have "qs ! i \<noteq> last qs"
        using d False nth_eq_iff_index_eq [OF d, of i "?k - 1"] by (simp add: last_conv_nth)
      moreover have "qs ! i \<noteq> p" using ik p by auto
      moreover have "m (qs ! i, next_id) = qs ! Suc i"
        using waiters_next [OF w ik(1)] ik by simp
      ultimately show ?thesis using ik by (simp add: eq nth_append slot_simps)
    qed
  qed
  show ?thesis
    unfolding waiters_def using d p w nxt
    by (simp add: eq slot_simps waiters_def)
qed


lemma waiters_dequeue:
  fixes n :: int and window :: win and qs :: "int list"
  assumes w: "waiters (memory window) qs"
  defines "J \<equiv> min (nat (max 0 (min n (group_size window)))) (length qs)"
  shows "waiters (memory (snd (dequeue n window))) (drop J qs)"
proof (cases "J < length qs")
  case False
  then have "J = length qs" by (simp add: J_def)
  with w show ?thesis
    using dequeue_waiters [OF w, of n]
    by (auto simp: J_def [symmetric] waiters_def)
next
  case True
  let ?k = "length qs"
  let ?m = "memory window"
  from True have ne: "qs \<noteq> []" by auto
  from w have d: "distinct qs" by (simp add: waiters_def)
  have mem: "memory (snd (dequeue n window)) = ?m((last qs, next_id) := qs ! J)"
    using dequeue_waiters [OF w, of n] True ne by (simp add: J_def [symmetric])
  have last: "last (drop J qs) = last qs" using True by simp
  from w ne have tail: "?m (tail_rank, tail_id) = last qs" by (simp add: waiters_def)
  have nxt: "(?m((last qs, next_id) := qs ! J)) (drop J qs ! i, next_id) =
      drop J qs ! (Suc i mod (?k - J))" if i: "i < ?k - J" for i
  proof (cases "Suc i = ?k - J")
    case True
    then have "J + i = ?k - 1" by simp
    then have "drop J qs ! i = last qs" using ne i by (simp add: last_conv_nth)
    with True \<open>J < ?k\<close> show ?thesis by simp
  next
    case False
    with i have lt: "Suc (J + i) < ?k" by simp
    then have "qs ! (J + i) \<noteq> last qs"
      using d ne nth_eq_iff_index_eq [OF d, of "J + i" "?k - 1"] by (simp add: last_conv_nth)
    moreover have "?m (qs ! (J + i), next_id) = qs ! Suc (J + i)"
      using waiters_next [OF w, of "J + i"] lt by simp
    ultimately show ?thesis using lt i False by simp
  qed
  have "distinct (drop J qs)" "PROC_NULL \<notin> set (drop J qs)"
    using w by (auto simp: waiters_def dest: in_set_dropD)
  with nxt tail last True show ?thesis
    by (simp add: mem waiters_def slot_simps)
qed

text \<open>
  Claim C9. Let the window hold a waiter queue of \<open>k \<ge> 0\<close> ranks of the group in the
  circular encoding (\<open>waiters\<close>, which is what \<^verbatim>\<open>_enqueue\<close> builds: lemma
  \<open>waiters_enqueue\<close>). Then \<^verbatim>\<open>_dequeue(maxnumprocs)\<close> with \<open>maxnumprocs\<close> at least the group
  size returns all \<open>k\<close> ranks in the order in which they were enqueued and leaves the TAIL
  slot at the null rank, nothing else being written. For a queue that is not empty the
  loop ends with \<^verbatim>\<open>empty\<close> set, the successor read last being the first dequeued rank.
\<close>

theorem dequeue_drains:
  assumes w: "waiters (memory window) qs"
    and r: "set qs \<subseteq> {0..<group_size window}"
    and m: "group_size window \<le> maxnumprocs"
  shows "dequeue maxnumprocs window =
           (qs, window\<lparr>memory := (memory window)((tail_rank, tail_id) := PROC_NULL)\<rparr>) \<and>
         (qs \<noteq> [] \<longrightarrow>
            dequeue_loop (max 0 (min maxnumprocs (group_size window))) [] (hd qs) False
              (memory window) = (qs, hd qs, True, memory window))"
proof -
  let ?M = "max 0 (min maxnumprocs (group_size window))"
  from w have d: "distinct qs" by (simp add: waiters_def)
  have len: "length qs \<le> nat (group_size window)"
    using ranks_length [OF d r] .
  with m have J: "min (nat ?M) (length qs) = length qs"
    by auto
  have deq: "dequeue maxnumprocs window =
      (qs, window\<lparr>memory := (memory window)((tail_rank, tail_id) := PROC_NULL)\<rparr>)"
  proof (cases "qs = []")
    case True
    with w have "memory window (tail_rank, tail_id) = PROC_NULL" by (simp add: waiters_def)
    then have "(memory window)((tail_rank, tail_id) := PROC_NULL) = memory window"
      by (simp add: fun_upd_idem)
    with True show ?thesis using dequeue_waiters [OF w, of maxnumprocs] by simp
  next
    case False
    then show ?thesis using dequeue_waiters [OF w, of maxnumprocs] J by simp
  qed
  have "dequeue_loop ?M [] (hd qs) False (memory window) = (qs, hd qs, True, memory window)"
    if ne: "qs \<noteq> []"
    using dequeue_loop_run [OF w ne, of 0 ?M] ne J by (simp add: hd_conv_nth)
  with deq show ?thesis by blast
qed

theorem dequeue_drains_witness:
  "dequeue (2 ^ 31 - 1)
     \<lparr>group_rank = 3, group_size = 4,
      memory = enqueue 1 (enqueue 2 (enqueue 0 Condition_memory))\<rparr> =
   ([0, 2, 1],
    \<lparr>group_rank = 3, group_size = 4,
     memory = (enqueue 1 (enqueue 2 (enqueue 0 Condition_memory)))
                ((tail_rank, tail_id) := PROC_NULL)\<rparr>)"
proof -
  let ?m = "enqueue 1 (enqueue 2 (enqueue 0 Condition_memory))"
  let ?w = "\<lparr>group_rank = 3, group_size = 4, memory = ?m\<rparr>"
  have e: "waiters Condition_memory []"
    by (simp add: waiters_def Condition_memory_def slot_simps)
  have w: "waiters (memory ?w) [0, 2, 1]"
    using waiters_enqueue [OF waiters_enqueue [OF waiters_enqueue [OF e, of 0], of 2], of 1]
    by (simp add: PROC_NULL_def)
  have r: "set [0, 2, 1] \<subseteq> {0..<group_size ?w}"
    by simp
  have m: "group_size ?w \<le> 2 ^ 31 - 1"
    by simp
  from dequeue_drains [OF w r m] show ?thesis
    by simp
qed

lemma waiters_frame:
  assumes "\<And>rank. m' (rank, next_id) = m (rank, next_id)"
    and "m' (tail_rank, tail_id) = m (tail_rank, tail_id)"
  shows "waiters m' qs = waiters m qs"
  by (simp add: waiters_def assms)

lemma notify_count:
  assumes "length qs \<le> nat g"
  shows "int (min (nat (max 0 (min n g))) (length qs)) = min (max 0 n) (int (length qs))"
  using assms by auto

text \<open>
  Claim C8, as stated, fails for a negative \<open>n\<close>: \<^verbatim>\<open>_dequeue\<close> clamps the number to zero,
  so with one waiter \<^verbatim>\<open>notify(-1)\<close> returns 0, which is not \<open>min(-1, 1)\<close>.
\<close>

theorem Condition_notify_count_counterexample:
  "Condition_locked
     \<lparr>cv_lock = Plain \<lparr>m_window = Some \<lparr>group_rank = 0, group_size = 2,
        memory = Mutex_memory((tail_rank, tail_id) := 0, (0, lock_id) := 1)\<rparr>\<rparr>,
      cv_lock_owned = False,
      cv_window = Some \<lparr>group_rank = 0, group_size = 2,
        memory = enqueue 1 Condition_memory\<rparr>\<rparr> = Inr True \<and>
   (case Condition_notify (- 1)
       \<lparr>cv_lock = Plain \<lparr>m_window = Some \<lparr>group_rank = 0, group_size = 2,
          memory = Mutex_memory((tail_rank, tail_id) := 0, (0, lock_id) := 1)\<rparr>\<rparr>,
        cv_lock_owned = False,
        cv_window = Some \<lparr>group_rank = 0, group_size = 2,
          memory = enqueue 1 Condition_memory\<rparr>\<rparr> of
      None \<Rightarrow> False
    | Some (Inl e, s) \<Rightarrow> False
    | Some (Inr v, s) \<Rightarrow> v = 0 \<and> v \<noteq> min (- 1) (int (length [1 :: int])))"
proof -
  have m: "enqueue 1 Condition_memory =
      Condition_memory((tail_rank, tail_id) := 1, (1, next_id) := 1)"
    by (simp add: enqueue_def RMA_simps Condition_memory_def slot_simps PROC_NULL_def)
  have l: "dequeue_loop 0 [] 1 False mm = ([], 1, False, mm)" for mm
    by (subst dequeue_loop.simps) simp
  show ?thesis
    unfolding m
    by (simp add: waiters_def Condition_locked_def lock_locked_def Mutex_locked_def
          Condition_notify_def dequeue_def l wakeup_def RMA_simps return_def
          slot_simps PROC_NULL_def tail_rank_def Condition_memory_def)
qed

text \<open>
  Claim C8, amended. For every \<open>n\<close> and every waiter queue at entry, \<^verbatim>\<open>notify(n)\<close> called
  by the holder of the lock returns \<open>min(max(0, n), waiters_at_entry)\<close>. The dequeued ranks
  are the first ones of the queue, each occurs once, the FLAG slot of each of them is 1
  afterwards and no other FLAG slot is changed; the remaining waiters stay enqueued.
\<close>

theorem Condition_notify_count:
  assumes win: "cv_window self = Some window"
    and held: "Condition_locked self = Inr True"
    and w: "waiters (memory window) qs"
    and r: "set qs \<subseteq> {0..<group_size window}"
  shows "\<exists>window'.
           Condition_notify n self =
             return (min (max 0 n) (int (length qs))) (self\<lparr>cv_window := Some window'\<rparr>) \<and>
           fst (dequeue n window) = take (nat (min (max 0 n) (int (length qs)))) qs \<and>
           distinct (fst (dequeue n window)) \<and>
           (\<forall>rank. memory window' (rank, flag_id) =
              (if rank \<in> set (fst (dequeue n window)) then 1
               else memory window (rank, flag_id))) \<and>
           waiters (memory window') (drop (nat (min (max 0 n) (int (length qs)))) qs)"
proof -
  let ?J = "min (nat (max 0 (min n (group_size window)))) (length qs)"
  from w have d: "distinct qs" by (simp add: waiters_def)
  have J: "int ?J = min (max 0 n) (int (length qs))"
    using notify_count [OF ranks_length [OF d r]] .
  then have J': "nat (min (max 0 n) (int (length qs))) = ?J"
    by (metis nat_int)
  obtain w1 where deq: "dequeue n window = (take ?J qs, w1)"
    using dequeue_waiters [OF w, of n] by simp
  have flags: "memory w1 (rank, flag_id) = memory window (rank, flag_id)" for rank
    using dequeue_waiters [OF w, of n] deq by (auto simp: slot_simps)
  have w1: "waiters (memory w1) (drop ?J qs)"
    using waiters_dequeue [OF w, of n] deq by simp
  let ?w2 = "wakeup (take ?J qs) w1"
  have notify: "Condition_notify n self = return (int ?J) (self\<lparr>cv_window := Some ?w2\<rparr>)"
    using win held deq by (simp add: Condition_notify_def)
  have fl: "memory ?w2 (rank, flag_id) =
      (if rank \<in> set (take ?J qs) then 1 else memory window (rank, flag_id))" for rank
    by (simp add: wakeup_def wakeup_memory flags)
  have other: "memory ?w2 (rank, disp) = memory w1 (rank, disp)" if "disp \<noteq> flag_id" for rank disp
    using that by (simp add: wakeup_def wakeup_memory)
  have "waiters (memory ?w2) (drop ?J qs)"
    using w1 waiters_frame [of "memory ?w2" "memory w1" "drop ?J qs"] other
    by (simp add: slot_simps)
  with notify fl d deq show ?thesis
    unfolding J' J [symmetric] by auto
qed


theorem Condition_notify_count_witness:
  "Condition_locked
     \<lparr>cv_lock = Plain \<lparr>m_window = Some \<lparr>group_rank = 3, group_size = 4,
        memory = Mutex_memory((tail_rank, tail_id) := 3, (3, lock_id) := 1)\<rparr>\<rparr>,
      cv_lock_owned = False,
      cv_window = Some \<lparr>group_rank = 3, group_size = 4,
        memory = enqueue 1 (enqueue 2 (enqueue 0 Condition_memory))\<rparr>\<rparr> = Inr True \<and>
   (case Condition_notify 2
       \<lparr>cv_lock = Plain \<lparr>m_window = Some \<lparr>group_rank = 3, group_size = 4,
          memory = Mutex_memory((tail_rank, tail_id) := 3, (3, lock_id) := 1)\<rparr>\<rparr>,
        cv_lock_owned = False,
        cv_window = Some \<lparr>group_rank = 3, group_size = 4,
          memory = enqueue 1 (enqueue 2 (enqueue 0 Condition_memory))\<rparr>\<rparr> of
      None \<Rightarrow> False
    | Some (Inl e, s) \<Rightarrow> False
    | Some (Inr v, s) \<Rightarrow> v = 2) \<and>
   fst (dequeue 2 \<lparr>group_rank = 3, group_size = 4,
          memory = enqueue 1 (enqueue 2 (enqueue 0 Condition_memory))\<rparr>) = [0, 2]"
proof -
  let ?m = "enqueue 1 (enqueue 2 (enqueue 0 Condition_memory))"
  let ?w = "\<lparr>group_rank = 3, group_size = 4, memory = ?m\<rparr>"
  let ?c = "\<lparr>cv_lock = Plain \<lparr>m_window = Some \<lparr>group_rank = 3, group_size = 4,
        memory = Mutex_memory((tail_rank, tail_id) := 3, (3, lock_id) := 1)\<rparr>\<rparr>,
      cv_lock_owned = False, cv_window = Some ?w\<rparr>"
  have e: "waiters Condition_memory []"
    by (simp add: waiters_def Condition_memory_def slot_simps)
  have w: "waiters (memory ?w) [0, 2, 1]"
    using waiters_enqueue [OF waiters_enqueue [OF waiters_enqueue [OF e, of 0], of 2], of 1]
    by (simp add: PROC_NULL_def)
  have h: "Condition_locked ?c = Inr True"
    by (simp add: Condition_locked_def lock_locked_def Mutex_locked_def)
  have c: "cv_window ?c = Some ?w"
    by simp
  have r: "set [0, 2, 1] \<subseteq> {0..<group_size ?w}"
    by simp
  from Condition_notify_count [OF c h w r, of 2] h show ?thesis
    by (auto simp: return_def)
qed

subsection \<open>The order of the sequential section\<close>

lemma seq_inv_init: "seq_inv n seq_init"
  by (simp add: seq_inv_def seq_init_def)

lemma seq_step_inv:
  assumes inv: "seq_inv n s" and step: "seq_step n c s = Some s'"
  shows "seq_inv n s'"
proof -
  from inv have io: "ended s x \<le> begun s x" "begun s x \<le> Suc (ended s x)" for x
    by (simp_all add: seq_inv_def)
  from inv have tok: "chan s (x - 1, x) + begun s x = ended s (x - 1)"
    if "n \<noteq> 1" "0 < x" "x < n" for x
    using that by (simp add: seq_inv_def)
  show ?thesis
  proof (cases c)
    case (Begin r)
    with step obtain ch where r: "0 \<le> r" "r < n" "begun s r = ended s r"
      and ch: "Sequential_begin n r (chan s) = Some ch"
      and s': "s' = s\<lparr>begun := (begun s)(r := Suc (begun s r)), chan := ch\<rparr>"
      by (auto split: if_splits option.splits)
    have 1: "ended s' x \<le> begun s' x \<and> begun s' x \<le> Suc (ended s' x)" for x
      using io [of x] r by (simp add: s')
    have 2: "chan s' (x - 1, x) + begun s' x = ended s' (x - 1)"
      if x: "n \<noteq> 1" "0 < x" "x < n" for x
    proof (cases "x = r")
      case True
      with ch x have "chan s (r - 1, r) \<noteq> 0" "ch = (chan s)((r - 1, r) := chan s (r - 1, r) - 1)"
        by (auto simp: Sequential_begin_def Recv_def split: if_splits)
      with tok [OF x] True show ?thesis by (simp add: s')
    next
      case False
      with ch have "ch (x - 1, x) = chan s (x - 1, x)"
        by (auto simp: Sequential_begin_def Recv_def split: if_splits)
      with tok [OF x] False show ?thesis by (simp add: s')
    qed
    from 1 2 show ?thesis by (simp add: seq_inv_def)
  next
    case (End r)
    with step have r: "0 \<le> r" "r < n" "begun s r = Suc (ended s r)"
      and s': "s' = s\<lparr>ended := (ended s)(r := Suc (ended s r)),
                chan := Sequential_end n r (chan s)\<rparr>"
      by (auto split: if_splits)
    have 1: "ended s' x \<le> begun s' x \<and> begun s' x \<le> Suc (ended s' x)" for x
      using io [of x] r by (simp add: s')
    have 2: "chan s' (x - 1, x) + begun s' x = ended s' (x - 1)"
      if x: "n \<noteq> 1" "0 < x" "x < n" for x
    proof (cases "x = r + 1")
      case True
      with x tok [OF x] show ?thesis
        by (simp add: s' Sequential_end_def Send_def)
    next
      case False
      then have "Sequential_end n r (chan s) (x - 1, x) = chan s (x - 1, x)"
        by (auto simp: Sequential_end_def Send_def)
      with tok [OF x] False show ?thesis by (simp add: s')
    qed
    from 1 2 show ?thesis by (simp add: seq_inv_def)
  qed
qed

lemma seq_run_inv:
  assumes "seq_inv n s" and "seq_run n cs s = Some s'"
  shows "seq_inv n s'"
  using assms
  by (induction cs arbitrary: s) (auto split: option.splits dest: seq_step_inv)

lemma seq_inv_order:
  assumes inv: "seq_inv n s" and "0 \<le> q" and "q < r" and "r < n"
  shows "begun s r \<le> ended s q"
proof -
  have "begun s r \<le> ended s (r - int (Suc d))" if "int (Suc d) \<le> r" for d
    using that
  proof (induction d)
    case 0
    with inv \<open>r < n\<close> show ?case
      by (auto simp: seq_inv_def dest!: spec [of _ r])
  next
    case (Suc d)
    let ?p = "r - int (Suc d)"
    from Suc have 1: "begun s r \<le> ended s ?p" by simp
    from inv have 2: "ended s ?p \<le> begun s ?p" by (simp add: seq_inv_def)
    from Suc.prems \<open>r < n\<close> have "0 < ?p" "?p < n" by simp_all
    with inv have "begun s ?p \<le> ended s (?p - 1)"
      by (auto simp: seq_inv_def dest!: spec [of _ ?p])
    with 1 2 show ?case by (simp add: algebra_simps)
  qed
  from this [of "nat (r - q) - 1"] assms(2,3) show ?thesis
    by (simp add: Suc_nat_eq_nat_zadd1)
qed


text \<open>
  Claim C4, as stated, fails: \<^verbatim>\<open>begin\<close> on a rank other than 0 returns only after the rank
  below has sent the message in its \<^verbatim>\<open>end\<close>. With two ranks, once rank 0 has gone through
  \<^verbatim>\<open>begin\<close> and \<^verbatim>\<open>end\<close>, \<^verbatim>\<open>begin\<close> returns on rank 1, and rank 0 has executed \<^verbatim>\<open>end\<close>.
\<close>

theorem Sequential_order_counterexample:
  "case seq_run 2 [Begin 0, End 0, Begin 1] seq_init of
     None \<Rightarrow> False
   | Some s \<Rightarrow> begun s 1 = 1 \<and> ended s 0 = 1"
  by (simp add: seq_init_def Sequential_begin_def Sequential_end_def Send_def Recv_def)

text \<open>
  Claim C4, amended. For every communicator size and all ranks \<open>q < r\<close>: \<^verbatim>\<open>begin\<close> has
  returned on rank \<open>r\<close> at most as often as \<^verbatim>\<open>begin\<close> and as \<^verbatim>\<open>end\<close> have returned on rank
  \<open>q\<close>, so when \<^verbatim>\<open>begin\<close> returns on rank \<open>r\<close>, every rank below has executed \<^verbatim>\<open>begin\<close> and
  \<^verbatim>\<open>end\<close>. Once \<^verbatim>\<open>end\<close> has returned on rank \<open>r - 1\<close> more often than \<^verbatim>\<open>begin\<close> on rank
  \<open>r\<close>, rank \<open>r\<close> can pass its \<^verbatim>\<open>begin\<close>, which blocks until then.
\<close>

theorem Sequential_order:
  assumes run: "seq_run n calls seq_init = Some s"
    and q: "0 \<le> q" "q < r" and r: "r < n"
  shows "begun s r \<le> begun s q \<and> begun s r \<le> ended s q \<and>
         (r = q + 1 \<longrightarrow>
            (begun s r < ended s q \<longrightarrow> Sequential_begin n r (chan s) \<noteq> None) \<and>
            (begun s r = ended s q \<longrightarrow> Sequential_begin n r (chan s) = None))"
proof -
  have inv: "seq_inv n s"
    using seq_run_inv [OF seq_inv_init run] .
  have 1: "begun s r \<le> ended s q"
    using seq_inv_order [OF inv q r] .
  have "ended s q \<le> begun s q"
    using inv by (simp add: seq_inv_def)
  with 1 have 2: "begun s r \<le> begun s q"
    by simp
  have "chan s (r - 1, r) + begun s r = ended s (r - 1)"
    using inv q r by (auto simp: seq_inv_def)
  then have 3: "(begun s r < ended s q \<longrightarrow> Sequential_begin n r (chan s) \<noteq> None) \<and>
      (begun s r = ended s q \<longrightarrow> Sequential_begin n r (chan s) = None)" if "r = q + 1"
    using that q r by (auto simp: Sequential_begin_def Recv_def)
  from 1 2 3 show ?thesis by blast
qed

theorem Sequential_order_witness:
  "case seq_run 3 [Begin 0, End 0, Begin 1] seq_init of
     None \<Rightarrow> False
   | Some s \<Rightarrow>
       begun s 1 = 1 \<and> begun s 1 \<le> begun s 0 \<and> begun s 1 \<le> ended s 0 \<and>
       begun s 2 = ended s 1 \<and> Sequential_begin 3 2 (chan s) = None"
proof -
  obtain s where run: "seq_run 3 [Begin 0, End 0, Begin 1] seq_init = Some s"
    and b: "begun s 1 = 1" "begun s 2 = ended s 1"
    by (simp add: seq_init_def Sequential_begin_def Sequential_end_def Send_def Recv_def)
  from Sequential_order [OF run, of 0 1] Sequential_order [OF run, of 1 2] b run
  show ?thesis by simp
qed

subsection \<open>The steps of one rank and the calls of one caller\<close>

text \<open>
  Where a call returns for a caller that runs alone, the steps of its rank in the
  transition system lead to the same window: four steps for an \<^verbatim>\<open>acquire\<close> that does not
  wait, and at most six for a \<^verbatim>\<open>release\<close> whose successor, if there is one, has linked
  itself.
\<close>

lemma Mutex_acquire_steps:
  assumes "pc s r = Idle" and "shared s (r, lock_id) = 0"
    and "\<not> blocking \<or> shared s (tail_rank, tail_id) = PROC_NULL"
    and r: "0 \<le> r" "r < n"
  shows "Mutex_acquire blocking \<lparr>m_window = Some \<lparr>group_rank = r, group_size = n, memory = shared s\<rparr>\<rparr> =
           return (shared s (tail_rank, tail_id) = PROC_NULL)
             \<lparr>m_window = Some \<lparr>group_rank = r, group_size = n,
                memory = shared (mutex_run n (replicate 4 (r, Acquire blocking)) s)\<rparr>\<rparr> \<and>
         pc (mutex_run n (replicate 4 (r, Acquire blocking)) s) r = Idle"
proof -
  let ?c = "Acquire blocking"
  let ?s1 = "s\<lparr>pc := (pc s)(r := A_next blocking)\<rparr>"
  let ?m2 = "(shared s)((r, next_id) := PROC_NULL)"
  let ?s2 = "s\<lparr>shared := ?m2, pc := (pc s)(r := A_tail blocking)\<rparr>"
  let ?free = "shared s (tail_rank, tail_id) = PROC_NULL"
  let ?m3 = "if ?free then ?m2((tail_rank, tail_id) := r) else ?m2"
  let ?s3 = "s\<lparr>shared := ?m3, pc := (pc s)(r := A_flag ?free)\<rparr>"
  let ?m4 = "?m3((r, lock_id) := of_bool ?free)"
  let ?s4 = "s\<lparr>shared := ?m4, pc := (pc s)(r := Idle)\<rparr>"
  have 1: "mutex_step r ?c s = ?s1"
    using assms by (simp add: mutex_step_def)
  have 2: "mutex_step r ?c ?s1 = ?s2"
    by (simp add: mutex_step_def RMA_simps)
  have 3: "mutex_step r ?c ?s2 = ?s3"
    using assms(3)
    by (cases blocking) (simp_all add: mutex_step_def RMA_simps Compare_and_swap_def slot_simps)
  have 4: "mutex_step r ?c ?s3 = ?s4"
    by (simp add: mutex_step_def RMA_simps)
  have run: "mutex_run n (replicate 4 (r, ?c)) s = ?s4"
    using r by (simp add: eval_nat_numeral 1 2 3 4 del: fun_upd_apply)
  have seq: "Mutex_acquire blocking \<lparr>m_window = Some \<lparr>group_rank = r, group_size = n, memory = shared s\<rparr>\<rparr> =
      return ?free \<lparr>m_window = Some \<lparr>group_rank = r, group_size = n, memory = ?m4\<rparr>\<rparr>"
    using assms(2,3)
    by (cases blocking)
      (simp_all add: Mutex_acquire_def RMA_simps Compare_and_swap_def slot_simps Let_def)
  show ?thesis
    unfolding run seq by simp
qed


lemma Mutex_release_steps:
  assumes "pc s r = Idle" and "shared s (r, lock_id) \<noteq> 0"
    and "shared s (tail_rank, tail_id) = r \<or> shared s (r, next_id) \<noteq> PROC_NULL"
    and r: "0 \<le> r" "r < n"
  shows "Mutex_release \<lparr>m_window = Some \<lparr>group_rank = r, group_size = n, memory = shared s\<rparr>\<rparr> =
           return ()
             \<lparr>m_window = Some \<lparr>group_rank = r, group_size = n,
                memory = shared (mutex_run n (replicate 6 (r, Release)) s)\<rparr>\<rparr> \<and>
         pc (mutex_run n (replicate 6 (r, Release)) s) r = Idle"
proof (cases "shared s (tail_rank, tail_id) = r")
  case True
  let ?s1 = "s\<lparr>pc := (pc s)(r := R_cas)\<rparr>"
  let ?m2 = "(shared s)((tail_rank, tail_id) := PROC_NULL)"
  let ?s2 = "s\<lparr>shared := ?m2, pc := (pc s)(r := R_flag)\<rparr>"
  let ?m3 = "?m2((r, lock_id) := 0)"
  let ?s3 = "s\<lparr>shared := ?m3, pc := (pc s)(r := Idle)\<rparr>"
  have 1: "mutex_step r Release s = ?s1"
    using assms by (simp add: mutex_step_def)
  have 2: "mutex_step r Release ?s1 = ?s2"
    using True by (simp add: mutex_step_def Compare_and_swap_def)
  have 3: "mutex_step r Release ?s2 = ?s3"
    by (simp add: mutex_step_def RMA_simps)
  have 4: "mutex_step r Release ?s3 = ?s3"
    by (simp add: mutex_step_def)
  have run: "mutex_run n (replicate 6 (r, Release)) s = ?s3"
    using r by (simp add: eval_nat_numeral 1 2 3 4 del: fun_upd_apply)
  have seq: "Mutex_release \<lparr>m_window = Some \<lparr>group_rank = r, group_size = n, memory = shared s\<rparr>\<rparr> =
      return () \<lparr>m_window = Some \<lparr>group_rank = r, group_size = n, memory = ?m3\<rparr>\<rparr>"
    using assms(2) True
    by (simp add: Mutex_release_def RMA_simps Compare_and_swap_def Let_def)
  show ?thesis
    unfolding run seq by simp
next
  case False
  with assms(3) have nx: "shared s (r, next_id) \<noteq> PROC_NULL" by simp
  let ?x = "shared s (r, next_id)"
  let ?s1 = "s\<lparr>pc := (pc s)(r := R_cas)\<rparr>"
  let ?s2 = "s\<lparr>pc := (pc s)(r := R_spin)\<rparr>"
  let ?s3 = "s\<lparr>pc := (pc s)(r := R_seen)\<rparr>"
  let ?s4 = "s\<lparr>pc := (pc s)(r := R_pass ?x)\<rparr>"
  let ?m5 = "(shared s)((?x, lock_id) := 1)"
  let ?s5 = "s\<lparr>shared := ?m5, pc := (pc s)(r := R_flag)\<rparr>"
  let ?m6 = "?m5((r, lock_id) := 0)"
  let ?s6 = "s\<lparr>shared := ?m6, pc := (pc s)(r := Idle)\<rparr>"
  have 1: "mutex_step r Release s = ?s1"
    using assms by (simp add: mutex_step_def)
  have 2: "mutex_step r Release ?s1 = ?s2"
    using False by (simp add: mutex_step_def Compare_and_swap_def)
  have 3: "mutex_step r Release ?s2 = ?s3"
    using nx by (simp add: mutex_step_def)
  have 4: "mutex_step r Release ?s3 = ?s4"
    by (simp add: mutex_step_def)
  have 5: "mutex_step r Release ?s4 = ?s5"
    by (simp add: mutex_step_def RMA_simps)
  have 6: "mutex_step r Release ?s5 = ?s6"
    by (simp add: mutex_step_def RMA_simps)
  have run: "mutex_run n (replicate 6 (r, Release)) s = ?s6"
    using r by (simp add: eval_nat_numeral 1 2 3 4 5 6 del: fun_upd_apply)
  have seq: "Mutex_release \<lparr>m_window = Some \<lparr>group_rank = r, group_size = n, memory = shared s\<rparr>\<rparr> =
      return () \<lparr>m_window = Some \<lparr>group_rank = r, group_size = n, memory = ?m6\<rparr>\<rparr>"
    using assms(2) False nx
    by (simp add: Mutex_release_def RMA_simps Compare_and_swap_def Let_def spinloop_eq)
  show ?thesis
    unfolding run seq by simp
qed

subsection \<open>Mutual exclusion of the mutex\<close>

lemma null_not_rank: "0 \<le> r \<Longrightarrow> r \<noteq> PROC_NULL"
  by (simp add: PROC_NULL_def)

lemma minv_init: "minv n mutex_init []"
  by (simp add: minv_def mutex_init_def Mutex_memory_def outside_def chain_def slot_simps)

lemma chain_frame:
  assumes "chain s q"
    and "\<And>x. x \<in> set q \<Longrightarrow> shared s' (x, next_id) = shared s (x, next_id)"
    and "\<And>x. x \<in> set (tl q) \<Longrightarrow> shared s' (x, lock_id) = shared s (x, lock_id) \<and> pc s' x = pc s x"
  shows "chain s' q"
proof -
  have "link s' (q ! i) (q ! Suc i)" if i: "Suc i < length q" for i
  proof -
    from i have a: "q ! i \<in> set q" by simp
    from i have "q ! Suc i \<in> set (tl q)"
      by (cases q) auto
    with assms(1) i assms(2) [OF a] assms(3) [of "q ! Suc i"] show ?thesis
      by (simp add: chain_def link_def)
  qed
  moreover have "shared s' (last q, next_id) = PROC_NULL" if "q \<noteq> []"
    using that assms(1) assms(2) [of "last q"] by (simp add: chain_def)
  ultimately show ?thesis by (simp add: chain_def)
qed

lemma chain_later:
  assumes "chain s q" and "x \<in> set (tl q)"
  shows "shared s (x, lock_id) = 0 \<and> (pc s x = A_spin \<or> (\<exists>a. pc s x = A_link a))"
proof -
  from assms(2) obtain i where "i < length (tl q)" "tl q ! i = x"
    by (auto simp: in_set_conv_nth)
  then have "Suc i < length q" "q ! Suc i = x"
    by (cases q; simp)+
  with assms(1) have "link s (q ! i) x"
    by (auto simp: chain_def)
  then show ?thesis by (auto simp: link_def)
qed


lemma outside_cong:
  assumes "pc s' x = pc s x" "shared s' (x, lock_id) = shared s (x, lock_id)"
    "shared s' (x, next_id) = shared s (x, next_id)"
  shows "outside s' x = outside s x"
  unfolding outside_def assms ..

lemma head_ok_cong:
  assumes "pc s' (hd q) = pc s (hd q)" "shared s' (hd q, lock_id) = shared s (hd q, lock_id)"
    "shared s' (hd q, next_id) = shared s (hd q, next_id)"
  shows "head_ok s' q = head_ok s q"
  unfolding head_ok_def assms ..

text \<open>A step of a rank outside the queue that stays outside.\<close>

lemma minv_outside_update:
  assumes inv: "minv n s q" and r: "r \<notin> set q"
    and out: "outside s' r"
    and pcs: "\<And>x. x \<noteq> r \<Longrightarrow> pc s' x = pc s x"
    and mem: "\<And>x d. x \<noteq> r \<or> (d \<noteq> lock_id \<and> d \<noteq> next_id) \<Longrightarrow> shared s' (x, d) = shared s (x, d)"
  shows "minv n s' q"
proof -
  have tail: "shared s' (tail_rank, tail_id) = shared s (tail_rank, tail_id)"
    by (rule mem) (simp add: slot_simps)
  have others: "outside s' x" if "0 \<le> x \<and> x < n \<and> x \<notin> set q" for x
  proof (cases "x = r")
    case True
    with out show ?thesis by simp
  next
    case False
    then have "outside s' x = outside s x"
      by (intro outside_cong pcs mem) simp_all
    with inv that show ?thesis by (simp add: minv_def)
  qed
  have hd: "head_ok s' q" if "q \<noteq> []"
  proof -
    from that r have "hd q \<noteq> r" by (cases q) auto
    then have "head_ok s' q = head_ok s q"
      by (intro head_ok_cong pcs mem) simp_all
    with inv that show ?thesis by (simp add: minv_def)
  qed
  have ch: "chain s' q"
  proof (rule chain_frame)
    show "chain s q" using inv by (simp add: minv_def)
  next
    fix x assume "x \<in> set q"
    with r have "x \<noteq> r" by auto
    then show "shared s' (x, next_id) = shared s (x, next_id)" by (simp add: mem)
  next
    fix x assume "x \<in> set (tl q)"
    then have "x \<in> set q" by (cases q) auto
    with r have "x \<noteq> r" by auto
    then show "shared s' (x, lock_id) = shared s (x, lock_id) \<and> pc s' x = pc s x"
      by (simp add: mem pcs)
  qed
  from inv tail others hd ch show ?thesis
    by (simp add: minv_def)
qed

text \<open>A step of the first rank of the queue that keeps the queue.\<close>

lemma minv_head_update:
  assumes inv: "minv n s q" and ne: "q \<noteq> []"
    and hd: "head_ok s' q"
    and pcs: "\<And>x. x \<noteq> hd q \<Longrightarrow> pc s' x = pc s x"
    and mem: "\<And>x d. x \<noteq> hd q \<or> d \<noteq> lock_id \<Longrightarrow> shared s' (x, d) = shared s (x, d)"
  shows "minv n s' q"
proof -
  from inv have d: "distinct q" by (simp add: minv_def)
  have tail: "shared s' (tail_rank, tail_id) = shared s (tail_rank, tail_id)"
    by (rule mem) (simp add: slot_simps)
  have others: "outside s' x" if "0 \<le> x \<and> x < n \<and> x \<notin> set q" for x
  proof -
    from that ne have "x \<noteq> hd q" by (cases q) auto
    then have "outside s' x = outside s x"
      by (intro outside_cong pcs mem) simp_all
    with inv that show ?thesis by (simp add: minv_def)
  qed
  have ch: "chain s' q"
  proof (rule chain_frame)
    show "chain s q" using inv by (simp add: minv_def)
  next
    fix x assume "x \<in> set q"
    show "shared s' (x, next_id) = shared s (x, next_id)" by (simp add: mem slot_simps)
  next
    fix x assume "x \<in> set (tl q)"
    with d ne have "x \<noteq> hd q" by (cases q) auto
    then show "shared s' (x, lock_id) = shared s (x, lock_id) \<and> pc s' x = pc s x"
      by (simp add: mem pcs)
  qed
  from inv tail others hd ch ne show ?thesis
    by (simp add: minv_def)
qed

lemma chain_single: "shared s (r, next_id) = PROC_NULL \<Longrightarrow> chain s [r]"
  by (simp add: chain_def)

lemma chain_snoc:
  assumes "chain s q" and "q \<noteq> []" and "link s (last q) r"
    and "shared s (r, next_id) = PROC_NULL"
  shows "chain s (q @ [r])"
proof -
  have "link s ((q @ [r]) ! i) ((q @ [r]) ! Suc i)" if "Suc i < length (q @ [r])" for i
  proof (cases "Suc i < length q")
    case True
    with assms(1) show ?thesis by (simp add: chain_def nth_append)
  next
    case False
    with that have i: "i = length q - 1" "length q - 1 < length q" "\<not> Suc (length q - 1) < length q"
      by simp_all
    from assms(2,3) have "link s (q ! (length q - 1)) r" by (simp add: last_conv_nth)
    then show ?thesis unfolding i(1) using i(2,3) by (simp add: nth_append)
  qed
  with assms(4) show ?thesis by (simp add: chain_def)
qed

lemma chain_tl:
  assumes "chain s q" and "2 \<le> length q"
  shows "chain s (tl q)"
proof -
  from assms(2) obtain a b q' where q: "q = a # b # q'"
    by (cases q; cases "tl q") auto
  have "link s (tl q ! i) (tl q ! Suc i)" if "Suc i < length (tl q)" for i
    using assms(1) that q by (auto simp: chain_def dest!: spec [of _ "Suc i"])
  moreover have "shared s (last (tl q), next_id) = PROC_NULL"
    using assms(1) q by (simp add: chain_def)
  ultimately show ?thesis by (simp add: chain_def)
qed

lemma head_ok_snoc:
  assumes "head_ok s q" and "q \<noteq> []"
  shows "head_ok s (q @ [r])"
  using assms
  by (cases q) (auto simp: head_ok_def nth_append split: mpc.splits)

lemma step_outside:
  assumes inv: "minv n s q" and r: "0 \<le> r" "r < n" and nq: "r \<notin> set q"
  shows "\<exists>q'. minv n (mutex_step r c s) q'"
proof -
  from inv r nq have out: "outside s r"
    by (simp add: minv_def)
  have stay: "minv n s' q"
    if "outside s' r" "\<And>x. x \<noteq> r \<Longrightarrow> pc s' x = pc s x"
      "\<And>x d. x \<noteq> r \<or> (d \<noteq> lock_id \<and> d \<noteq> next_id) \<Longrightarrow> shared s' (x, d) = shared s (x, d)"
    for s'
    using minv_outside_update [OF inv nq that] .
  show ?thesis
  proof (cases "pc s r")
    case Idle
    with out have l: "shared s (r, lock_id) = 0" by (simp add: outside_def)
    show ?thesis
    proof (cases c)
      case (Acquire b)
      have "minv n (mutex_step r c s) q"
        by (rule stay) (simp_all add: mutex_step_def Idle Acquire l outside_def)
      then show ?thesis ..
    next
      case Release
      with Idle l inv show ?thesis by (auto simp: mutex_step_def)
    qed
  next
    case (A_next b)
    with out have l: "shared s (r, lock_id) = 0" by (simp add: outside_def)
    have "minv n (mutex_step r c s) q"
      by (rule stay) (auto simp: mutex_step_def A_next l outside_def RMA_simps slot_simps)
    then show ?thesis ..
  next
    case (A_tail b)
    with out have l: "shared s (r, lock_id) = 0" and nx: "shared s (r, next_id) = PROC_NULL"
      by (simp_all add: outside_def)
    from inv have tail: "shared s (tail_rank, tail_id) = (if q = [] then PROC_NULL else last q)"
      by (simp add: minv_def)
    show ?thesis
    proof (cases "q = []")
      case True
      let ?s' = "s\<lparr>shared := (shared s)((tail_rank, tail_id) := r), pc := (pc s)(r := A_flag True)\<rparr>"
      from True tail have step: "mutex_step r c s = ?s'"
        by (simp add: mutex_step_def A_tail RMA_simps Compare_and_swap_def)
      have "outside ?s' x" if "0 \<le> x \<and> x < n \<and> x \<notin> set [r]" for x
      proof -
        from that have "x \<noteq> r" by simp
        then have "outside ?s' x = outside s x"
          by (intro outside_cong) (simp_all add: slot_simps)
        with inv that True show ?thesis by (simp add: minv_def)
      qed
      moreover have "head_ok ?s' [r]" by (simp add: head_ok_def)
      moreover have "chain ?s' [r]" by (rule chain_single) (simp add: nx slot_simps)
      ultimately have "minv n ?s' [r]"
        using r by (simp add: minv_def)
      with step show ?thesis by auto
    next
      case False
      let ?l = "last q"
      from False have lq: "?l \<in> set q" by simp
      with inv have "0 \<le> ?l" by (auto simp: minv_def)
      then have ln: "?l \<noteq> PROC_NULL" by (rule null_not_rank)
      from lq nq have lr: "?l \<noteq> r" by auto
      show ?thesis
      proof (cases b)
        case False
        have "minv n (mutex_step r c s) q"
          by (rule stay)
            (use \<open>q \<noteq> []\<close> tail ln in \<open>auto simp: mutex_step_def A_tail False l outside_def
               Compare_and_swap_def\<close>)
        then show ?thesis ..
      next
        case True
        let ?s' = "s\<lparr>shared := (shared s)((tail_rank, tail_id) := r), pc := (pc s)(r := A_link ?l)\<rparr>"
        from \<open>q \<noteq> []\<close> tail ln have step: "mutex_step r c s = ?s'"
          by (simp add: mutex_step_def A_tail True RMA_simps)
        have "outside ?s' x" if "0 \<le> x \<and> x < n \<and> x \<notin> set (q @ [r])" for x
        proof -
          from that have "x \<noteq> r" by simp
          then have "outside ?s' x = outside s x"
            by (intro outside_cong) (simp_all add: slot_simps)
          with inv that show ?thesis by (simp add: minv_def)
        qed
        moreover have "head_ok ?s' (q @ [r])"
        proof -
          from \<open>q \<noteq> []\<close> nq have "hd q \<noteq> r" by (cases q) auto
          with \<open>q \<noteq> []\<close> have "head_ok ?s' (q @ [r]) = head_ok s (q @ [r])"
            by (intro head_ok_cong) (simp_all add: slot_simps)
          with inv \<open>q \<noteq> []\<close> head_ok_snoc [of s q r] show ?thesis by (simp add: minv_def)
        qed
        moreover have "chain ?s' (q @ [r])"
        proof (rule chain_snoc)
          show c': "chain ?s' q"
          proof (rule chain_frame)
            show "chain s q" using inv by (simp add: minv_def)
          next
            fix x assume "x \<in> set q"
            show "shared ?s' (x, next_id) = shared s (x, next_id)" by (simp add: slot_simps)
          next
            fix x assume "x \<in> set (tl q)"
            then have "x \<in> set q" by (cases q) auto
            with nq have "x \<noteq> r" by auto
            then show "shared ?s' (x, lock_id) = shared s (x, lock_id) \<and> pc ?s' x = pc s x"
              by (simp add: slot_simps)
          qed
          show "q \<noteq> []" by fact
          from c' \<open>q \<noteq> []\<close> have "shared ?s' (?l, next_id) = PROC_NULL"
            by (simp add: chain_def)
          then show "link ?s' ?l r"
            using l by (simp add: link_def slot_simps)
          show "shared ?s' (r, next_id) = PROC_NULL"
            by (simp add: nx slot_simps)
        qed
        ultimately have "minv n ?s' (q @ [r])"
          using inv r nq by (simp add: minv_def)
        with step show ?thesis by auto
      qed
    qed
  next
    case (A_flag locked)
    with out have l: "\<not> locked" by (simp add: outside_def)
    have "minv n (mutex_step r c s) q"
      by (rule stay) (auto simp: mutex_step_def A_flag l outside_def RMA_simps slot_simps)
    then show ?thesis ..
  next
    case R_flag
    have "minv n (mutex_step r c s) q"
      by (rule stay) (auto simp: mutex_step_def R_flag outside_def RMA_simps slot_simps)
    then show ?thesis ..
  qed (use out in \<open>simp_all add: outside_def\<close>)
qed

lemma step_head:
  assumes inv: "minv n s q" and ne: "q \<noteq> []" and r: "r = hd q"
  shows "\<exists>q'. minv n (mutex_step r c s) q'"
proof -
  from inv ne have hd: "head_ok s q" and d: "distinct q" and ch: "chain s q"
    and sub: "set q \<subseteq> {0..<n}"
    and tail: "shared s (tail_rank, tail_id) = last q"
    by (simp_all add: minv_def)
  from ne r have rq: "r \<in> set q" by simp
  have keep: "minv n s' q"
    if "head_ok s' q" "\<And>x. x \<noteq> hd q \<Longrightarrow> pc s' x = pc s x"
      "\<And>x d. x \<noteq> hd q \<or> d \<noteq> lock_id \<Longrightarrow> shared s' (x, d) = shared s (x, d)"
    for s'
    using minv_head_update [OF inv ne that] .
  show ?thesis
  proof (cases "pc s r")
    case Idle
    with hd r have l: "shared s (r, lock_id) \<noteq> 0" by (simp add: head_ok_def)
    show ?thesis
    proof (cases c)
      case (Acquire b)
      with Idle l inv show ?thesis by (auto simp: mutex_step_def)
    next
      case Release
      have "minv n (mutex_step r c s) q"
        by (rule keep) (simp_all add: mutex_step_def Idle Release l head_ok_def r [symmetric])
      then show ?thesis ..
    qed
  next
    case (A_flag locked)
    with hd r have l: "locked" by (simp add: head_ok_def)
    have "minv n (mutex_step r c s) q"
      by (rule keep)
        (auto simp: mutex_step_def A_flag l head_ok_def r [symmetric] RMA_simps)
    then show ?thesis ..
  next
    case A_spin
    with hd r have l: "shared s (r, lock_id) \<noteq> 0" by (simp add: head_ok_def)
    have "minv n (mutex_step r c s) q"
      by (rule keep) (simp_all add: mutex_step_def A_spin l head_ok_def r [symmetric])
    then show ?thesis ..
  next
    case A_seen
    with hd r have l: "shared s (r, lock_id) \<noteq> 0" by (simp add: head_ok_def)
    have "minv n (mutex_step r c s) q"
      by (rule keep) (simp_all add: mutex_step_def A_seen l head_ok_def r [symmetric])
    then show ?thesis ..
  next
    case R_cas
    show ?thesis
    proof (cases "last q = r")
      case True
      with d ne r have q: "q = [r]"
        by (cases q) (auto simp: last_conv_nth nth_Cons split: if_splits nat.splits)
      let ?s' = "s\<lparr>shared := (shared s)((tail_rank, tail_id) := PROC_NULL),
                   pc := (pc s)(r := R_flag)\<rparr>"
      from True tail have step: "mutex_step r c s = ?s'"
        by (simp add: mutex_step_def R_cas Compare_and_swap_def)
      have "outside ?s' x" if "0 \<le> x \<and> x < n" for x
      proof (cases "x = r")
        case True
        then show ?thesis by (simp add: outside_def)
      next
        case False
        then have "outside ?s' x = outside s x"
          by (intro outside_cong) (simp_all add: slot_simps)
        with inv that False q show ?thesis by (simp add: minv_def)
      qed
      then have "minv n ?s' []"
        by (simp add: minv_def chain_def)
      with step show ?thesis by auto
    next
      case False
      with ne r have len: "2 \<le> length q"
        by (cases q; cases "tl q") auto
      have "minv n (mutex_step r c s) q"
        by (rule keep)
          (use False tail len in \<open>simp_all add: mutex_step_def R_cas Compare_and_swap_def
             head_ok_def r [symmetric]\<close>)
      then show ?thesis ..
    qed
  next
    case R_spin
    with hd r have len: "2 \<le> length q" by (simp add: head_ok_def)
    with ch have "link s (q ! 0) (q ! 1)" by (simp add: chain_def)
    moreover from ne r have "q ! 0 = r" by (simp add: hd_conv_nth)
    ultimately have nx: "shared s (r, next_id) = PROC_NULL \<or> shared s (r, next_id) = q ! 1"
      by (auto simp: link_def)
    show ?thesis
    proof (cases "shared s (r, next_id) = PROC_NULL")
      case True
      with R_spin inv show ?thesis by (auto simp: mutex_step_def)
    next
      case False
      have "minv n (mutex_step r c s) q"
        by (rule keep)
          (use False nx len in \<open>simp_all add: mutex_step_def R_spin head_ok_def r [symmetric]\<close>)
      then show ?thesis ..
    qed
  next
    case R_seen
    with hd r have len: "2 \<le> length q" and nx: "shared s (r, next_id) = q ! 1"
      by (simp_all add: head_ok_def)
    have "minv n (mutex_step r c s) q"
      by (rule keep)
        (use nx len in \<open>simp_all add: mutex_step_def R_seen head_ok_def r [symmetric]\<close>)
    then show ?thesis ..
  next
    case (R_pass x)
    with hd r have len: "2 \<le> length q" and x: "x = q ! 1" and nx: "shared s (r, next_id) = x"
      by (simp_all add: head_ok_def)
    from len obtain q' where q: "q = r # x # q'"
      using r x by (cases q; cases "tl q") auto
    from sub q have "0 \<le> x" by auto
    then have xn: "x \<noteq> PROC_NULL" by (rule null_not_rank)
    from ch len have "link s (q ! 0) (q ! 1)" by (simp add: chain_def)
    with q nx xn have pcx: "pc s x = A_spin" by (auto simp: link_def)
    from d q have xr: "x \<noteq> r" by auto
    let ?s' = "s\<lparr>shared := (shared s)((x, lock_id) := 1), pc := (pc s)(r := R_flag)\<rparr>"
    have step: "mutex_step r c s = ?s'"
      by (simp add: mutex_step_def R_pass RMA_simps)
    have "outside ?s' y" if "0 \<le> y \<and> y < n \<and> y \<notin> set (tl q)" for y
    proof (cases "y = r")
      case True
      then show ?thesis by (simp add: outside_def)
    next
      case False
      with that q have "y \<notin> set q" "y \<noteq> x" by auto
      with False have "outside ?s' y = outside s y"
        by (intro outside_cong) simp_all
      with inv that \<open>y \<notin> set q\<close> show ?thesis by (simp add: minv_def)
    qed
    moreover have "head_ok ?s' (tl q)"
      using q pcx xr by (simp add: head_ok_def)
    moreover have "chain ?s' (tl q)"
    proof (rule chain_frame)
      show "chain s (tl q)" using chain_tl [OF ch len] .
    next
      fix y assume "y \<in> set (tl q)"
      show "shared ?s' (y, next_id) = shared s (y, next_id)" by (simp add: slot_simps)
    next
      fix y assume "y \<in> set (tl (tl q))"
      with d q have "y \<noteq> x" "y \<noteq> r" by auto
      then show "shared ?s' (y, lock_id) = shared s (y, lock_id) \<and> pc ?s' y = pc s y"
        by simp
    qed
    moreover have "shared ?s' (tail_rank, tail_id) = last (tl q)"
      using tail q by (simp add: slot_simps)
    ultimately have "minv n ?s' (tl q)"
      using d sub q by (simp add: minv_def)
    with step show ?thesis by auto
  qed (use hd r in \<open>simp_all add: head_ok_def\<close>)
qed

lemma step_later:
  assumes inv: "minv n s q" and r: "r \<in> set (tl q)"
  shows "\<exists>q'. minv n (mutex_step r c s) q'"
proof -
  from inv have d: "distinct q" and ch: "chain s q" and sub: "set q \<subseteq> {0..<n}"
    by (simp_all add: minv_def)
  from r have ne: "q \<noteq> []" by auto
  from r obtain i where i: "Suc i < length q" "q ! Suc i = r"
    by (cases q) (auto simp: in_set_conv_nth)
  let ?a = "q ! i"
  from ch i have lk: "link s ?a r" by (auto simp: chain_def)
  then have l: "shared s (r, lock_id) = 0" by (simp add: link_def)
  from i d have ar: "?a \<noteq> r"
    using nth_eq_iff_index_eq [OF d, of i "Suc i"] by auto
  from i sub have "0 \<le> r" by (auto simp: subset_iff dest: nth_mem)
  then have rn: "r \<noteq> PROC_NULL" by (rule null_not_rank)
  from lk show ?thesis unfolding link_def
  proof (elim conjE disjE)
    assume "pc s r = A_spin"
    with l inv show ?thesis by (auto simp: mutex_step_def)
  next
    assume pcr: "pc s r = A_link ?a" and na: "shared s (?a, next_id) = PROC_NULL"
    let ?s' = "s\<lparr>shared := (shared s)((?a, next_id) := r), pc := (pc s)(r := A_spin)\<rparr>"
    have step: "mutex_step r c s = ?s'"
      by (simp add: mutex_step_def pcr RMA_simps)
    from i have aq: "?a \<in> set q" and rq: "r \<in> set q" by (auto dest: nth_mem)
    have "outside ?s' y" if "0 \<le> y \<and> y < n \<and> y \<notin> set q" for y
    proof -
      from that aq rq have "y \<noteq> ?a" "y \<noteq> r" by auto
      then have "outside ?s' y = outside s y"
        by (intro outside_cong) simp_all
      with inv that show ?thesis by (simp add: minv_def)
    qed
    moreover have "head_ok ?s' q"
    proof -
      from inv ne have h: "head_ok s q" by (simp add: minv_def)
      from d r ne have hr: "hd q \<noteq> r" by (cases q) auto
      show ?thesis
      proof (cases "hd q = ?a")
        case False
        with hr have "head_ok ?s' q = head_ok s q"
          by (intro head_ok_cong) simp_all
        with h show ?thesis by simp
      next
        case True
        have "0 \<le> q ! 1" if "2 \<le> length q"
          using that sub by (auto simp: subset_iff dest: nth_mem)
        then have "q ! 1 \<noteq> PROC_NULL" if "2 \<le> length q"
          using that null_not_rank by blast
        with h True na hr show ?thesis
          by (auto simp: head_ok_def slot_simps split: mpc.splits)
      qed
    qed
    moreover have "chain ?s' q"
    proof -
      have "link ?s' (q ! j) (q ! Suc j)" if j: "Suc j < length q" for j
      proof (cases "j = i")
        case True
        with i l show ?thesis by (simp add: link_def slot_simps)
      next
        case False
        from j i False have "q ! j \<noteq> ?a" "q ! Suc j \<noteq> r"
          using nth_eq_iff_index_eq [OF d, of j i] nth_eq_iff_index_eq [OF d, of "Suc j" "Suc i"]
          by auto
        moreover from ch j have "link s (q ! j) (q ! Suc j)" by (simp add: chain_def)
        ultimately show ?thesis by (simp add: link_def slot_simps)
      qed
      moreover have "shared ?s' (last q, next_id) = PROC_NULL"
      proof -
        from i have "last q \<noteq> ?a"
          using nth_eq_iff_index_eq [OF d, of "length q - 1" i] ne by (auto simp: last_conv_nth)
        with ch ne show ?thesis by (simp add: chain_def)
      qed
      ultimately show ?thesis by (simp add: chain_def)
    qed
    ultimately have "minv n ?s' q"
      using inv by (simp add: minv_def slot_simps)
    with step show ?thesis by auto
  qed
qed

lemma step_inv:
  assumes inv: "minv n s q" and r: "0 \<le> r" "r < n"
  shows "\<exists>q'. minv n (mutex_step r c s) q'"
proof -
  consider "r \<notin> set q" | "q \<noteq> []" "r = hd q" | "r \<in> set (tl q)"
    by (cases q) auto
  then show ?thesis
    using step_outside [OF inv r] step_head [OF inv] step_later [OF inv]
    by cases blast+
qed

lemma run_inv:
  assumes "minv n s q"
  shows "\<exists>q'. minv n (mutex_run n sched s) q'"
  using assms
proof (induction sched arbitrary: s q)
  case Nil
  then show ?case by auto
next
  case (Cons e sched)
  obtain r c where e: "e = (r, c)" by (cases e)
  show ?case
  proof (cases "0 \<le> r \<and> r < n")
    case True
    with step_inv [OF Cons.prems, of r c] obtain q1 where "minv n (mutex_step r c s) q1"
      by auto
    from Cons.IH [OF this] True e show ?thesis by simp
  next
    case False
    with Cons.IH [OF Cons.prems] e show ?thesis by auto
  qed
qed

lemma minv_holder:
  assumes inv: "minv n s q" and r: "0 \<le> r" "r < n"
    and l: "shared s (r, lock_id) \<noteq> 0" and p: "pc s r \<noteq> R_flag"
  shows "q \<noteq> [] \<and> r = hd q"
proof -
  have "r \<in> set q"
  proof (rule ccontr)
    assume "r \<notin> set q"
    with inv r have "outside s r" by (simp add: minv_def)
    with l p show False by (auto simp: outside_def split: mpc.splits)
  qed
  moreover have "r \<notin> set (tl q)"
    using chain_later [of s q r] inv l by (auto simp: minv_def)
  ultimately show ?thesis by (cases q) auto
qed

text \<open>
  Claim C1, as stated, fails: \<^verbatim>\<open>release\<close> writes 1 into the LOCK slot of the successor
  before it writes 0 into its own. With two ranks, let rank 0 acquire the mutex, rank 1 call
  \<^verbatim>\<open>acquire\<close> and link itself behind rank 0, and rank 0 run \<^verbatim>\<open>release\<close> up to the hand-over:
  the LOCK slots of both ranks are 1.
\<close>

theorem Mutex_mutual_exclusion_counterexample:
  "shared (mutex_run 2
     [(0, Acquire True), (0, Acquire True), (0, Acquire True), (0, Acquire True),
      (1, Acquire True), (1, Acquire True), (1, Acquire True), (1, Acquire True),
      (0, Release), (0, Release), (0, Release), (0, Release), (0, Release)] mutex_init)
     (0, lock_id) = 1 \<and>
   shared (mutex_run 2
     [(0, Acquire True), (0, Acquire True), (0, Acquire True), (0, Acquire True),
      (1, Acquire True), (1, Acquire True), (1, Acquire True), (1, Acquire True),
      (0, Release), (0, Release), (0, Release), (0, Release), (0, Release)] mutex_init)
     (1, lock_id) = 1"
  by (simp add: mutex_step_def mutex_init_def Mutex_memory_def RMA_simps Compare_and_swap_def
        slot_simps tail_rank_def PROC_NULL_def)

text \<open>
  Claim C1, amended. In every state that any number of ranks reach by running \<^verbatim>\<open>acquire\<close>
  (blocking or not) and \<^verbatim>\<open>release\<close> on one mutex, at most one of the ranks that are not at
  the last step of \<^verbatim>\<open>release\<close> (the lock handed over or the TAIL slot cleared, the own LOCK
  slot not yet) has a LOCK slot other than zero. A rank can call \<^verbatim>\<open>locked()\<close> only between
  its calls, so \<^verbatim>\<open>locked()\<close> is true on at most one rank at any time.
\<close>

theorem Mutex_mutual_exclusion:
  assumes "0 \<le> r1" "r1 < n" "0 \<le> r2" "r2 < n"
    and "shared (mutex_run n sched mutex_init) (r1, lock_id) \<noteq> 0"
    and "pc (mutex_run n sched mutex_init) r1 \<noteq> R_flag"
    and "shared (mutex_run n sched mutex_init) (r2, lock_id) \<noteq> 0"
    and "pc (mutex_run n sched mutex_init) r2 \<noteq> R_flag"
  shows "r1 = r2"
proof -
  from run_inv [OF minv_init, of n sched]
  obtain q where inv: "minv n (mutex_run n sched mutex_init) q" ..
  from minv_holder [OF inv assms(1,2,5,6)] minv_holder [OF inv assms(3,4,7,8)]
  show ?thesis by simp
qed

theorem Mutex_mutual_exclusion_witness:
  "shared (mutex_run 2
     [(0, Acquire True), (0, Acquire True), (0, Acquire True), (0, Acquire True),
      (1, Acquire False), (1, Acquire False), (1, Acquire False), (1, Acquire False)]
     mutex_init) (0, lock_id) = 1 \<and>
   pc (mutex_run 2
     [(0, Acquire True), (0, Acquire True), (0, Acquire True), (0, Acquire True),
      (1, Acquire False), (1, Acquire False), (1, Acquire False), (1, Acquire False)]
     mutex_init) 0 = Idle \<and>
   pc (mutex_run 2
     [(0, Acquire True), (0, Acquire True), (0, Acquire True), (0, Acquire True),
      (1, Acquire False), (1, Acquire False), (1, Acquire False), (1, Acquire False)]
     mutex_init) 1 = Idle \<and>
   shared (mutex_run 2
     [(0, Acquire True), (0, Acquire True), (0, Acquire True), (0, Acquire True),
      (1, Acquire False), (1, Acquire False), (1, Acquire False), (1, Acquire False)]
     mutex_init) (1, lock_id) = 0"
proof -
  let ?sched = "[(0, Acquire True), (0, Acquire True), (0, Acquire True), (0, Acquire True),
      (1, Acquire False), (1, Acquire False), (1, Acquire False), (1, Acquire False)]"
  let ?s = "mutex_run 2 ?sched mutex_init"
  have 0: "shared ?s (0, lock_id) = 1" "pc ?s 0 = Idle" and 1: "pc ?s 1 = Idle"
    by (simp_all add: mutex_step_def mutex_init_def Mutex_memory_def RMA_simps
          Compare_and_swap_def slot_simps tail_rank_def PROC_NULL_def)
  have "shared ?s (1, lock_id) = 0"
  proof (rule ccontr)
    assume a: "shared ?s (1, lock_id) \<noteq> 0"
    have "(0 :: int) = 1"
      by (rule Mutex_mutual_exclusion [of 0 2 1 ?sched])
        (use 0 1 a in \<open>simp_all del: mutex_run.simps\<close>)
    then show False by simp
  qed
  with 0 1 show ?thesis by simp
qed

subsection \<open>The steps of a recursive mutex and the calls of one caller\<close>

text \<open>
  Where \<^verbatim>\<open>RMutex.acquire\<close> or \<^verbatim>\<open>RMutex.release\<close> returns for a caller that runs alone, the
  steps of its rank lead to the same object: four steps for an \<^verbatim>\<open>acquire\<close> that takes the
  underlying mutex without waiting, and at most six for the \<^verbatim>\<open>release\<close> that gives it up.
\<close>

lemma mutex_step_call:
  "pc m r \<noteq> Idle \<Longrightarrow> mutex_step r c m = mutex_step r c' m"
  by (cases "pc m r") (simp_all add: mutex_step_def)

lemma RMutex_acquire_steps:
  assumes out: "r_mode s r = Outside" and idle: "pc (r_mutex s) r = Idle"
    and live: "\<not> r_freed s r" and free: "shared (r_mutex s) (r, lock_id) = 0"
    and tail: "\<not> blocking \<or> shared (r_mutex s) (tail_rank, tail_id) = PROC_NULL"
    and r: "0 \<le> r" "r < n"
  shows "RMutex_acquire blocking (rmutex_of n s r) =
           return (shared (r_mutex s) (tail_rank, tail_id) = PROC_NULL)
             (rmutex_of n (rmutex_run n (replicate 4 (r, Call_acquire blocking)) s) r) \<and>
         r_mode (rmutex_run n (replicate 4 (r, Call_acquire blocking)) s) r = Outside"
proof -
  let ?c = "Call_acquire blocking"
  let ?a = "Acquire blocking"
  let ?m = "r_mutex s"
  let ?got = "shared ?m (tail_rank, tail_id) = PROC_NULL"
  let ?m1 = "mutex_step r ?a ?m"
  let ?m2 = "mutex_step r ?a ?m1"
  let ?m3 = "mutex_step r ?a ?m2"
  let ?m4 = "mutex_step r ?a ?m3"
  let ?s1 = "s\<lparr>r_mutex := ?m1, r_mode := (r_mode s)(r := In_acquire)\<rparr>"
  let ?s2 = "s\<lparr>r_mutex := ?m2, r_mode := (r_mode s)(r := In_acquire)\<rparr>"
  let ?s3 = "s\<lparr>r_mutex := ?m3, r_mode := (r_mode s)(r := In_acquire)\<rparr>"
  let ?s4 = "s\<lparr>r_mutex := ?m4,
      r_count := (if ?got then (r_count s)(r := 1) else r_count s),
      r_mode := (r_mode s)(r := Outside)\<rparr>"
  have p1: "pc ?m1 r = A_next blocking"
    using idle free by (simp add: mutex_step_def)
  have p2: "pc ?m2 r = A_tail blocking"
    using p1 by (simp add: mutex_step_def)
  have sh2: "shared ?m2 (tail_rank, tail_id) = shared ?m (tail_rank, tail_id)"
    using p1 idle free by (simp add: mutex_step_def RMA_simps slot_simps)
  have p3: "pc ?m3 r = A_flag ?got"
    using p2 sh2 tail
    by (cases blocking)
      (auto simp: mutex_step_def RMA_simps Compare_and_swap_def slot_simps split: prod.splits)
  have 1: "rmutex_step r ?c s = ?s1"
    using out live free by (simp add: rmutex_step_def)
  have 2: "rmutex_step r ?c ?s1 = ?s2"
    using p1 mutex_step_call [of ?m1 r Release ?a] by (simp add: rmutex_step_def)
  have 3: "rmutex_step r ?c ?s2 = ?s3"
    using p2 mutex_step_call [of ?m2 r Release ?a] by (simp add: rmutex_step_def)
  have 4: "rmutex_step r ?c ?s3 = ?s4"
    using p3 mutex_step_call [of ?m3 r Release ?a] by (simp add: rmutex_step_def)
  have run: "rmutex_run n (replicate 4 (r, ?c)) s = ?s4"
    using r by (simp add: eval_nat_numeral 1 2 3 4 del: fun_upd_apply)
  have mrun: "mutex_run n (replicate 4 (r, ?a)) ?m = ?m4"
    using r by (simp add: eval_nat_numeral)
  from Mutex_acquire_steps [OF idle free tail r, of ] live free
  show ?thesis
    unfolding run mrun
    by (simp add: RMutex_acquire_def rmutex_of_def Mutex_locked_def return_def)
qed

lemma RMutex_release_steps:
  assumes out: "r_mode s r = Outside" and idle: "pc (r_mutex s) r = Idle"
    and live: "\<not> r_freed s r" and held: "shared (r_mutex s) (r, lock_id) \<noteq> 0"
    and one: "r_count s r = 1"
    and tail: "shared (r_mutex s) (tail_rank, tail_id) = r \<or>
               shared (r_mutex s) (r, next_id) \<noteq> PROC_NULL"
    and r: "0 \<le> r" "r < n"
  shows "RMutex_release (rmutex_of n s r) =
           return () (rmutex_of n (rmutex_run n (replicate 6 (r, Call_release)) s) r) \<and>
         r_mode (rmutex_run n (replicate 6 (r, Call_release)) s) r = Outside"
proof -
  let ?c = "Call_release"
  let ?m = "r_mutex s"
  let ?in = "\<lambda>m. s\<lparr>r_mutex := m, r_count := (r_count s)(r := 0),
      r_mode := (r_mode s)(r := In_release)\<rparr>"
  let ?out = "\<lambda>m. s\<lparr>r_mutex := m, r_count := (r_count s)(r := 0),
      r_mode := (r_mode s)(r := Outside)\<rparr>"
  let ?m1 = "?m\<lparr>pc := (pc ?m)(r := R_cas)\<rparr>"
  have 1: "rmutex_step r ?c s = ?in ?m1"
    using out live held one idle by (simp add: rmutex_step_def mutex_step_def Let_def)
  have "\<exists>m'. rmutex_run n (replicate 6 (r, ?c)) s = ?out m' \<and>
      mutex_run n (replicate 6 (r, Release)) ?m = m'"
  proof (cases "shared ?m (tail_rank, tail_id) = r")
    case True
    let ?h2 = "(shared ?m)((tail_rank, tail_id) := PROC_NULL)"
    let ?m2 = "?m\<lparr>shared := ?h2, pc := (pc ?m)(r := R_flag)\<rparr>"
    let ?h3 = "?h2((r, lock_id) := 0)"
    let ?m3 = "?m\<lparr>shared := ?h3, pc := (pc ?m)(r := Idle)\<rparr>"
    have m1: "mutex_step r Release ?m = ?m1"
      using idle held by (simp add: mutex_step_def)
    have m2: "mutex_step r Release ?m1 = ?m2"
      using True by (simp add: mutex_step_def Compare_and_swap_def)
    have m3: "mutex_step r Release ?m2 = ?m3"
      by (simp add: mutex_step_def RMA_simps)
    have m4: "mutex_step r Release ?m3 = ?m3"
      by (simp add: mutex_step_def)
    have 2: "rmutex_step r ?c (?in ?m1) = ?in ?m2"
      using m2 by (simp add: rmutex_step_def Let_def)
    have 3: "rmutex_step r ?c (?in ?m2) = ?out ?m3"
      using m3 by (simp add: rmutex_step_def Let_def)
    have 4: "rmutex_step r ?c (?out ?m3) = ?out ?m3"
      by (simp add: rmutex_step_def Let_def)
    have "rmutex_run n (replicate 6 (r, ?c)) s = ?out ?m3"
      using r by (simp add: eval_nat_numeral 1 2 3 4 del: fun_upd_apply)
    moreover have "mutex_run n (replicate 6 (r, Release)) ?m = ?m3"
      using r by (simp add: eval_nat_numeral m1 m2 m3 m4 del: fun_upd_apply)
    ultimately show ?thesis by blast
  next
    case False
    with tail have nx: "shared ?m (r, next_id) \<noteq> PROC_NULL" by simp
    let ?x = "shared ?m (r, next_id)"
    let ?m2 = "?m\<lparr>pc := (pc ?m)(r := R_spin)\<rparr>"
    let ?m3 = "?m\<lparr>pc := (pc ?m)(r := R_seen)\<rparr>"
    let ?m4 = "?m\<lparr>pc := (pc ?m)(r := R_pass ?x)\<rparr>"
    let ?h5 = "(shared ?m)((?x, lock_id) := 1)"
    let ?m5 = "?m\<lparr>shared := ?h5, pc := (pc ?m)(r := R_flag)\<rparr>"
    let ?h6 = "?h5((r, lock_id) := 0)"
    let ?m6 = "?m\<lparr>shared := ?h6, pc := (pc ?m)(r := Idle)\<rparr>"
    have m1: "mutex_step r Release ?m = ?m1"
      using idle held by (simp add: mutex_step_def)
    have m2: "mutex_step r Release ?m1 = ?m2"
      using False by (simp add: mutex_step_def Compare_and_swap_def)
    have m3: "mutex_step r Release ?m2 = ?m3"
      using nx by (simp add: mutex_step_def)
    have m4: "mutex_step r Release ?m3 = ?m4"
      by (simp add: mutex_step_def)
    have m5: "mutex_step r Release ?m4 = ?m5"
      by (simp add: mutex_step_def RMA_simps)
    have m6: "mutex_step r Release ?m5 = ?m6"
      by (simp add: mutex_step_def RMA_simps)
    have 2: "rmutex_step r ?c (?in ?m1) = ?in ?m2"
      using m2 by (simp add: rmutex_step_def Let_def)
    have 3: "rmutex_step r ?c (?in ?m2) = ?in ?m3"
      using m3 by (simp add: rmutex_step_def Let_def)
    have 4: "rmutex_step r ?c (?in ?m3) = ?in ?m4"
      using m4 by (simp add: rmutex_step_def Let_def)
    have 5: "rmutex_step r ?c (?in ?m4) = ?in ?m5"
      using m5 by (simp add: rmutex_step_def Let_def)
    have 6: "rmutex_step r ?c (?in ?m5) = ?out ?m6"
      using m6 by (simp add: rmutex_step_def Let_def)
    have "rmutex_run n (replicate 6 (r, ?c)) s = ?out ?m6"
      using r by (simp add: eval_nat_numeral 1 2 3 4 5 6 del: fun_upd_apply)
    moreover have "mutex_run n (replicate 6 (r, Release)) ?m = ?m6"
      using r by (simp add: eval_nat_numeral m1 m2 m3 m4 m5 m6 del: fun_upd_apply)
    ultimately show ?thesis by blast
  qed
  then obtain m' where run: "rmutex_run n (replicate 6 (r, ?c)) s = ?out m'"
    and mrun: "mutex_run n (replicate 6 (r, Release)) ?m = m'"
    by blast
  from Mutex_release_steps [OF idle held tail r] live held one
  show ?thesis
    unfolding run mrun
    by (simp add: RMutex_release_def rmutex_of_def Mutex_locked_def return_def)
qed

subsection \<open>The recursion count of RMutex\<close>

text \<open>
  A step of one rank leaves the program point of every other rank as it is, and its LOCK
  slot too unless the step hands the lock over to it.
\<close>

lemma mutex_step_pc_other:
  "r \<noteq> r' \<Longrightarrow> pc (mutex_step r' c m) r = pc m r"
  by (simp add: mutex_step_def Let_def split: mpc.splits mcall.splits prod.splits)

lemma mutex_step_lock_other:
  assumes "r \<noteq> r'" and "pc m r' \<noteq> R_pass r"
  shows "shared (mutex_step r' c m) (r, lock_id) = shared m (r, lock_id)"
  using assms
  by (auto simp: mutex_step_def Let_def RMA_simps Compare_and_swap_def slot_simps
      split: mpc.splits mcall.splits prod.splits)

lemma minv_position:
  assumes inv: "minv n m q" and r: "0 \<le> r" "r < n"
    and p: "\<not> outside m r" "pc m r \<noteq> A_spin" "\<And>a. pc m r \<noteq> A_link a"
  shows "q \<noteq> [] \<and> r = hd q \<and> head_ok m q"
proof -
  from inv r p(1) have "r \<in> set q" by (auto simp: minv_def)
  moreover have "r \<notin> set (tl q)"
    using chain_later [of m q r] inv p(2,3) by (auto simp: minv_def)
  ultimately have "q \<noteq> [] \<and> r = hd q" by (cases q) auto
  with inv show ?thesis by (simp add: minv_def)
qed

lemma minv_seen:
  assumes "minv n m q" and "0 \<le> r" "r < n" and "pc m r = A_seen"
  shows "shared m (r, lock_id) \<noteq> 0"
  using minv_position [OF assms(1-3)] assms(4)
  by (auto simp: outside_def head_ok_def)

lemma minv_pass:
  assumes inv: "minv n m q" and r: "0 \<le> r" "r < n" and p: "pc m r = R_pass x"
  shows "pc m x = A_spin"
proof -
  from minv_position [OF inv r] p have q: "q \<noteq> []" "r = hd q" and h: "head_ok m q"
    by (auto simp: outside_def)
  from h p q have len: "2 \<le> length q" and x: "x = q ! 1" and nx: "shared m (r, next_id) = x"
    by (simp_all add: head_ok_def)
  from inv have "chain m q" and sub: "set q \<subseteq> {0..<n}" by (simp_all add: minv_def)
  with len have "link m (q ! 0) (q ! 1)" by (simp add: chain_def)
  moreover from q have "q ! 0 = r" by (simp add: hd_conv_nth)
  moreover from len sub x have "0 \<le> x" by (auto simp: subset_iff dest: nth_mem)
  then have "x \<noteq> PROC_NULL" by (rule null_not_rank)
  ultimately show ?thesis using x nx by (auto simp: link_def)
qed

text \<open>
  A step of a rank on its recursive mutex is a step of the underlying mutex or none, and
  changes the count, the window and the saved state of this rank only.
\<close>

lemma rmutex_step_mutex:
  "r_mutex (rmutex_step r c s) = r_mutex s \<or>
   (\<exists>c'. r_mutex (rmutex_step r c s) = mutex_step r c' (r_mutex s))"
proof (cases "r_mode s r")
  case Outside
  then show ?thesis
    by (cases c) (auto simp: rmutex_step_def Let_def split: option.splits)
next
  case In_acquire
  then show ?thesis
    by (cases "pc (r_mutex s) r") (auto simp: rmutex_step_def Let_def)
next
  case In_release
  then show ?thesis
    by (cases "pc (r_mutex s) r") (auto simp: rmutex_step_def Let_def)
next
  case In_restore
  then show ?thesis
    by (cases "pc (r_mutex s) r") (auto simp: rmutex_step_def Let_def)
next
  case In_free
  then show ?thesis
    by (cases "pc (r_mutex s) r") (auto simp: rmutex_step_def Let_def)
qed

lemma rmutex_step_locals:
  assumes "r' \<noteq> r"
  shows "r_count (rmutex_step r c s) r' = r_count s r'"
    and "r_freed (rmutex_step r c s) r' = r_freed s r'"
    and "r_saved (rmutex_step r c s) r' = r_saved s r'"
    and "r_mode (rmutex_step r c s) r' = r_mode s r'"
proof -
  have "r_count (rmutex_step r c s) r' = r_count s r' \<and>
    r_freed (rmutex_step r c s) r' = r_freed s r' \<and>
    r_saved (rmutex_step r c s) r' = r_saved s r' \<and>
    r_mode (rmutex_step r c s) r' = r_mode s r'"
  proof (cases "r_mode s r")
    case Outside
    then show ?thesis using assms
      by (cases c) (auto simp: rmutex_step_def Let_def split: option.splits)
  next
    case In_acquire
    then show ?thesis using assms
      by (cases "pc (r_mutex s) r") (auto simp: rmutex_step_def Let_def)
  next
    case In_release
    then show ?thesis using assms
      by (cases "pc (r_mutex s) r") (auto simp: rmutex_step_def Let_def)
  next
    case In_restore
    then show ?thesis using assms
      by (cases "pc (r_mutex s) r") (auto simp: rmutex_step_def Let_def split: option.splits)
  next
    case In_free
    then show ?thesis using assms
      by (cases "pc (r_mutex s) r") (auto simp: rmutex_step_def Let_def)
  qed
  then show "r_count (rmutex_step r c s) r' = r_count s r'"
    and "r_freed (rmutex_step r c s) r' = r_freed s r'"
    and "r_saved (rmutex_step r c s) r' = r_saved s r'"
    and "r_mode (rmutex_step r c s) r' = r_mode s r'" by simp_all
qed


lemma rank_ok_other:
  assumes inv: "rinv n s" and r: "0 \<le> r" "r < n" and r': "0 \<le> r'" "r' < n" "r' \<noteq> r"
  shows "rank_ok (rmutex_step r c s) r'"
proof -
  let ?s' = "rmutex_step r c s"
  from inv r' have ok: "rank_ok s r'" by (simp add: rinv_def)
  from inv obtain q where m: "minv n (r_mutex s) q" by (auto simp: rinv_def)
  have pcs: "pc (r_mutex ?s') r' = pc (r_mutex s) r'"
    using rmutex_step_mutex [of r c s] r'(3) by (auto simp: mutex_step_pc_other)
  have lock: "shared (r_mutex ?s') (r', lock_id) = shared (r_mutex s) (r', lock_id)"
    if idle: "pc (r_mutex s) r' = Idle"
  proof -
    have "pc (r_mutex s) r \<noteq> R_pass r'"
      using minv_pass [OF m r, of r'] idle by auto
    with rmutex_step_mutex [of r c s] r'(3) show ?thesis
      by (auto simp: mutex_step_lock_other)
  qed
  note loc = rmutex_step_locals [OF r'(3), of c s]
  show ?thesis
  proof (cases "r_mode s r'")
    case Outside
    with ok have "pc (r_mutex s) r' = Idle" by (simp add: rank_ok_def)
    from lock [OF this] ok Outside show ?thesis
      unfolding rank_ok_def loc pcs by simp
  next
    case In_acquire
    with ok show ?thesis unfolding rank_ok_def loc pcs by simp
  next
    case In_release
    with ok show ?thesis unfolding rank_ok_def loc pcs by simp
  next
    case In_restore
    with ok show ?thesis unfolding rank_ok_def loc pcs by simp
  next
    case In_free
    with ok show ?thesis unfolding rank_ok_def loc pcs by simp
  qed
qed


lemma rank_ok_self:
  assumes inv: "rinv n s" and r: "0 \<le> r" "r < n"
  shows "rank_ok (rmutex_step r c s) r"
proof -
  from inv r have ok: "rank_ok s r" by (simp add: rinv_def)
  from inv obtain q where m: "minv n (r_mutex s) q" by (auto simp: rinv_def)
  note seen = minv_seen [OF m r]
  show ?thesis
  proof (cases "r_mode s r")
    case Outside
    with ok have idle: "pc (r_mutex s) r = Idle" by (simp add: rank_ok_def)
    from ok Outside idle show ?thesis
      by (cases c)
        (auto simp: rank_ok_def rmutex_step_def mutex_step_def Let_def split: option.splits)
  next
    case In_acquire
    with ok show ?thesis
      by (cases "pc (r_mutex s) r")
        (auto simp: rank_ok_def rmutex_step_def mutex_step_def Let_def RMA_simps
          Compare_and_swap_def slot_simps split: prod.splits if_splits)
  next
    case In_release
    with ok show ?thesis
      by (cases "pc (r_mutex s) r")
        (auto simp: rank_ok_def rmutex_step_def mutex_step_def Let_def RMA_simps
          Compare_and_swap_def slot_simps split: prod.splits if_splits)
  next
    case In_restore
    with ok seen show ?thesis
      by (cases "pc (r_mutex s) r")
        (auto simp: rank_ok_def rmutex_step_def mutex_step_def Let_def RMA_simps
          Compare_and_swap_def slot_simps split: prod.splits if_splits)
  next
    case In_free
    with ok show ?thesis
      by (cases "pc (r_mutex s) r")
        (auto simp: rank_ok_def rmutex_step_def mutex_step_def Let_def RMA_simps
          Compare_and_swap_def slot_simps split: prod.splits if_splits)
  qed
qed

lemma rinv_init: "rinv n rmutex_init"
proof -
  have "minv n (r_mutex rmutex_init) []"
    using minv_init [of n] by (simp add: rmutex_init_def)
  moreover have "rank_ok rmutex_init r" for r
    by (simp add: rank_ok_def rmutex_init_def mutex_init_def Mutex_memory_def slot_simps)
  ultimately show ?thesis
    unfolding rinv_def by blast
qed

lemma rinv_step:
  assumes inv: "rinv n s" and r: "0 \<le> r" "r < n"
  shows "rinv n (rmutex_step r c s)"
proof -
  from inv obtain q where m: "minv n (r_mutex s) q" by (auto simp: rinv_def)
  have "\<exists>q'. minv n (r_mutex (rmutex_step r c s)) q'"
    using rmutex_step_mutex [of r c s] m step_inv [OF m r] by auto
  moreover have "rank_ok (rmutex_step r c s) r'" if "0 \<le> r'" "r' < n" for r'
    using rank_ok_self [OF inv r] rank_ok_other [OF inv r that] by (cases "r' = r") auto
  ultimately show ?thesis
    unfolding rinv_def by blast
qed

lemma rinv_run:
  assumes "rinv n s"
  shows "rinv n (rmutex_run n sched s)"
  using assms
proof (induction sched arbitrary: s)
  case Nil
  then show ?case by simp
next
  case (Cons e sched)
  obtain r c where e: "e = (r, c)" by (cases e)
  from Cons.prems have "rinv n (if 0 \<le> r \<and> r < n then rmutex_step r c s else s)"
    by (simp add: rinv_step)
  from Cons.IH [OF this] e show ?case by simp
qed

lemma rmutex_of_held:
  "RMutex_held (rmutex_of n s r) \<longleftrightarrow> \<not> r_freed s r \<and> shared (r_mutex s) (r, lock_id) \<noteq> 0"
  by (simp add: RMutex_held_def RMutex_locked_def Mutex_locked_def rmutex_of_def)

lemma rmutex_of_count: "RMutex_count (rmutex_of n s r) = r_count s r"
  by (simp add: RMutex_count_def rmutex_of_def)

lemmas rstep_eval =
  rmutex_step_def rmutex_init_def mutex_step_def mutex_init_def Mutex_memory_def RMA_simps
  Compare_and_swap_def slot_simps tail_rank_def PROC_NULL_def Let_def

text \<open>
  Claim C7. Let any number of ranks run \<^verbatim>\<open>acquire\<close> (blocking or not), \<^verbatim>\<open>release\<close> and
  \<^verbatim>\<open>free\<close> on their recursive mutex over one window, and the \<^verbatim>\<open>_release_save\<close> and
  \<^verbatim>\<open>_acquire_restore\<close> steps of a condition on it, in any interleaving of their steps,
  whether the calls return at once, wait for another rank to release, or raise. Whenever a
  rank is between its calls, its \<^verbatim>\<open>count()\<close> is positive exactly when \<^verbatim>\<open>locked()\<close> is true
  on it, which is when it holds the underlying mutex, and its \<^verbatim>\<open>count()\<close> is not negative.
\<close>

theorem RMutex_count_iff_held:
  assumes "0 \<le> r" and "r < n"
    and "r_mode (rmutex_run n sched rmutex_init) r = Outside"
  shows "(0 < RMutex_count (rmutex_of n (rmutex_run n sched rmutex_init) r) \<longleftrightarrow>
            RMutex_held (rmutex_of n (rmutex_run n sched rmutex_init) r)) \<and>
         0 \<le> RMutex_count (rmutex_of n (rmutex_run n sched rmutex_init) r)"
proof -
  have "rinv n (rmutex_run n sched rmutex_init)"
    by (rule rinv_run) (rule rinv_init)
  with assms(1,2) have "rank_ok (rmutex_run n sched rmutex_init) r"
    by (simp add: rinv_def)
  with assms(3) show ?thesis
    by (simp add: rank_ok_def rmutex_of_held rmutex_of_count)
qed

theorem RMutex_count_iff_held_witness:
  "(let S = rmutex_run 2
      [(0, Call_acquire True), (0, Call_acquire True), (0, Call_acquire True),
       (0, Call_acquire True), (0, Call_acquire True),
       (1, Call_acquire True), (1, Call_acquire True), (1, Call_acquire True),
       (1, Call_acquire True), (1, Call_acquire True),
       (0, Call_release),
       (0, Call_release), (0, Call_release), (0, Call_release), (0, Call_release),
       (0, Call_release), (0, Call_release),
       (1, Call_acquire True), (1, Call_acquire True), (1, Call_acquire True),
       (1, Call_release_save), (1, Call_release_save), (1, Call_release_save),
       (0, Call_acquire False), (0, Call_acquire False), (0, Call_acquire False),
       (0, Call_acquire False),
       (1, Call_acquire_restore), (1, Call_acquire_restore), (1, Call_acquire_restore),
       (1, Call_acquire_restore), (1, Call_acquire_restore),
       (0, Call_release), (0, Call_release), (0, Call_release), (0, Call_release),
       (0, Call_release), (0, Call_release),
       (1, Call_acquire_restore), (1, Call_acquire_restore), (1, Call_acquire_restore)]
      rmutex_init
    in r_mode S 1 = Outside \<and> r_saved S 1 = None \<and>
       RMutex_count (rmutex_of 2 S 1) = 1 \<and> RMutex_locked (rmutex_of 2 S 1) = Inr True \<and>
       RMutex_count (rmutex_of 2 S 0) = 0 \<and> RMutex_locked (rmutex_of 2 S 0) = Inr False \<and>
       (0 < RMutex_count (rmutex_of 2 S 1) \<longleftrightarrow> RMutex_held (rmutex_of 2 S 1)) \<and>
       0 \<le> RMutex_count (rmutex_of 2 S 1))"
proof -
  let ?sched = "[(0, Call_acquire True), (0, Call_acquire True), (0, Call_acquire True),
       (0, Call_acquire True), (0, Call_acquire True),
       (1, Call_acquire True), (1, Call_acquire True), (1, Call_acquire True),
       (1, Call_acquire True), (1, Call_acquire True),
       (0, Call_release),
       (0, Call_release), (0, Call_release), (0, Call_release), (0, Call_release),
       (0, Call_release), (0, Call_release),
       (1, Call_acquire True), (1, Call_acquire True), (1, Call_acquire True),
       (1, Call_release_save), (1, Call_release_save), (1, Call_release_save),
       (0, Call_acquire False), (0, Call_acquire False), (0, Call_acquire False),
       (0, Call_acquire False),
       (1, Call_acquire_restore), (1, Call_acquire_restore), (1, Call_acquire_restore),
       (1, Call_acquire_restore), (1, Call_acquire_restore),
       (0, Call_release), (0, Call_release), (0, Call_release), (0, Call_release),
       (0, Call_release), (0, Call_release),
       (1, Call_acquire_restore), (1, Call_acquire_restore), (1, Call_acquire_restore)]"
  have run: "r_mode (rmutex_run 2 ?sched rmutex_init) 1 = Outside"
    "r_saved (rmutex_run 2 ?sched rmutex_init) 1 = None"
    "RMutex_count (rmutex_of 2 (rmutex_run 2 ?sched rmutex_init) 1) = 1"
    "RMutex_locked (rmutex_of 2 (rmutex_run 2 ?sched rmutex_init) 1) = Inr True"
    "RMutex_count (rmutex_of 2 (rmutex_run 2 ?sched rmutex_init) 0) = 0"
    "RMutex_locked (rmutex_of 2 (rmutex_run 2 ?sched rmutex_init) 0) = Inr False"
    by (simp_all add: rstep_eval rmutex_of_def RMutex_count_def RMutex_locked_def
        Mutex_locked_def)
  from RMutex_count_iff_held [of 1 2 ?sched, OF _ _ run(1)] run show ?thesis
    unfolding Let_def by simp
qed

end
